theory Spec2Isabelle
  imports Complex_Main "HOL-Library.Word"
begin

unbundle bit_operations_syntax

section \<open>Values of the program\<close>

text \<open>
  A \<open>Uint8Array\<close> is the list of its bytes. A JavaScript string is the list of its UTF-16
  code units, so that \<open>charCodeAt\<close> is list indexing and \<open>String.fromCharCode\<close> of a byte is
  the code unit of the same value.
\<close>

type_synonym byte = "8 word"
type_synonym code_unit = "16 word"
type_synonym jsstring = "code_unit list"

datatype error = InvalidCharacterError | NotSupportedError | RangeError | IndexSizeError

text \<open>A string literal of the source, all of whose characters are ASCII.\<close>

definition str :: "string \<Rightarrow> jsstring" where
  "str s = map of_char s"

section \<open>The platform's \<open>btoa\<close> and \<open>atob\<close>\<close>

text \<open>
  \<open>btoa\<close> and \<open>atob\<close> are functions of the browser, not of the repository. They are
  modelled after the HTML standard: \<open>btoa\<close> throws \<open>InvalidCharacterError\<close> when a code
  unit is above U+00FF and otherwise returns the padded base64 text of RFC 4648;
  \<open>atob\<close> is the standard's forgiving-base64 decode.
\<close>

definition base64_alphabet :: jsstring where
  "base64_alphabet =
     str ''ABCDEFGHIJKLMNOPQRSTUVWXYZabcdefghijklmnopqrstuvwxyz0123456789+/''"

definition sextet_char :: "nat \<Rightarrow> code_unit" where
  "sextet_char v = base64_alphabet ! (v mod 64)"

definition char_sextet :: "code_unit \<Rightarrow> nat option" where
  "char_sextet c = map_of (zip base64_alphabet [0 ..< 64]) c"

definition pad_char :: code_unit where
  "pad_char = 61"

text \<open>
  Three bytes are 24 bits, written as four sextets; a last group of one byte is padded
  with four zero bits and of two bytes with two, and the text is filled with \<open>=\<close>.
\<close>

fun base64_encode :: "byte list \<Rightarrow> jsstring" where
  "base64_encode (a # b # c # rest) =
     (let n = (unat a * 256 + unat b) * 256 + unat c
      in sextet_char (n div 262144) # sextet_char (n div 4096) #
         sextet_char (n div 64) # sextet_char n # base64_encode rest)"
| "base64_encode [a, b] =
     (let n = (unat a * 256 + unat b) * 4
      in [sextet_char (n div 4096), sextet_char (n div 64), sextet_char n, pad_char])"
| "base64_encode [a] =
     (let n = unat a * 16
      in [sextet_char (n div 64), sextet_char n, pad_char, pad_char])"
| "base64_encode [] = []"

definition btoa :: "jsstring \<Rightarrow> error + jsstring" where
  "btoa data =
     (if list_ex (\<lambda>c. 255 < c) data then Inl InvalidCharacterError
      else Inr (base64_encode (map ucast data)))"

definition ascii_whitespace :: "code_unit \<Rightarrow> bool" where
  "ascii_whitespace c = (c = 9 \<or> c = 10 \<or> c = 12 \<or> c = 13 \<or> c = 32)"

text \<open>
  Step 2 of forgiving-base64 decode: when the length is a multiple of four, one or two
  \<open>=\<close> at the end are removed.
\<close>

definition remove_padding :: "jsstring \<Rightarrow> jsstring" where
  "remove_padding d =
     (if length d mod 4 = 0 then
        (case rev d of
           e1 # e2 # r \<Rightarrow>
             if e1 = pad_char \<and> e2 = pad_char then rev r
             else if e1 = pad_char then rev (e2 # r)
             else d
         | _ \<Rightarrow> d)
      else d)"

fun sextets_of :: "jsstring \<Rightarrow> nat list option" where
  "sextets_of [] = Some []"
| "sextets_of (c # cs) =
     (case char_sextet c of
        None \<Rightarrow> None
      | Some v \<Rightarrow> (case sextets_of cs of None \<Rightarrow> None | Some vs \<Rightarrow> Some (v # vs)))"

text \<open>
  Four sextets give three bytes. At the end of the text, twelve bits give one byte and
  the last four bits are dropped; eighteen bits give two bytes and the last two bits are
  dropped.
\<close>

fun decode_sextets :: "nat list \<Rightarrow> byte list" where
  "decode_sextets (s0 # s1 # s2 # s3 # rest) =
     (let n = ((s0 * 64 + s1) * 64 + s2) * 64 + s3
      in of_nat (n div 65536) # of_nat (n div 256) # of_nat n # decode_sextets rest)"
| "decode_sextets [s0, s1, s2] =
     (let n = ((s0 * 64 + s1) * 64 + s2) div 4
      in [of_nat (n div 256), of_nat n])"
| "decode_sextets [s0, s1] =
     (let n = (s0 * 64 + s1) div 16
      in [of_nat n])"
| "decode_sextets _ = []"

definition atob :: "jsstring \<Rightarrow> error + jsstring" where
  "atob data =
     (let d = remove_padding (filter (\<lambda>c. \<not> ascii_whitespace c) data)
      in if length d mod 4 = 1 then Inl InvalidCharacterError
         else (case sextets_of d of
                 None \<Rightarrow> Inl InvalidCharacterError
               | Some vs \<Rightarrow> Inr (map ucast (decode_sextets vs))))"

section \<open>The codec of \<open>utils/audio\<close>\<close>

text \<open>
  \<open>decode\<close> returns the empty array for the empty string without calling \<open>atob\<close>, and
  otherwise stores \<open>charCodeAt(i)\<close> of the decoded string into a \<open>Uint8Array\<close>, which keeps
  the low eight bits. An exception of \<open>atob\<close> is not caught.
\<close>

definition decode :: "jsstring \<Rightarrow> error + byte list" where
  "decode base64 =
     (if base64 = [] then Inr []
      else (case atob base64 of
              Inl e \<Rightarrow> Inl e
            | Inr binaryString \<Rightarrow> Inr (map ucast binaryString)))"

text \<open>\<open>encode\<close> appends \<open>String.fromCharCode(bytes[i])\<close> for every index and calls \<open>btoa\<close>.\<close>

definition encode :: "byte list \<Rightarrow> error + jsstring" where
  "encode bytes = btoa (map ucast bytes)"

section \<open>The chunk reassembler of \<open>services/gemini\<close>\<close>

text \<open>
  \<open>TypedArray.prototype.set(source, offset)\<close> copies \<open>source\<close> into the target from
  \<open>offset\<close> on and throws \<open>RangeError\<close> when the source does not fit.
\<close>

definition typed_set :: "byte list \<Rightarrow> byte list \<Rightarrow> nat \<Rightarrow> error + byte list" where
  "typed_set target source offset =
     (if length target < offset + length source then Inl RangeError
      else Inr (take offset target @ source @ drop (offset + length source) target))"

text \<open>
  The callback of \<open>chunks.map\<close>: the bytes of one chunk; when \<open>atob\<close> throws, the
  exception is caught and logged, and the chunk contributes the empty array.
\<close>

definition chunk_bytes :: "jsstring \<Rightarrow> byte list" where
  "chunk_bytes base64 =
     (case atob base64 of
        Inl e \<Rightarrow> []
      | Inr binary \<Rightarrow> map ucast binary)"

text \<open>The loop \<open>for (const arr of byteArrays)\<close> with its running \<open>offset\<close>.\<close>

fun copy_arrays :: "byte list \<Rightarrow> nat \<Rightarrow> byte list list \<Rightarrow> error + byte list" where
  "copy_arrays result offset [] = Inr result"
| "copy_arrays result offset (arr # arrs) =
     (case typed_set result arr offset of
        Inl e \<Rightarrow> Inl e
      | Inr result' \<Rightarrow> copy_arrays result' (offset + length arr) arrs)"

definition combineBase64Chunks :: "jsstring list \<Rightarrow> error + jsstring" where
  "combineBase64Chunks chunks =
     (if length chunks = 0 then Inr []
      else
        (let byteArrays = map chunk_bytes chunks;
             totalLength = foldl (\<lambda>acc curr. acc + length curr) 0 byteArrays
         in case copy_arrays (replicate totalLength 0) 0 byteArrays of
              Inl e \<Rightarrow> Inl e
            | Inr result \<Rightarrow> btoa (map ucast result)))"

section \<open>The WAV encoder\<close>

text \<open>
  A \<open>DataView\<close> over an \<open>ArrayBuffer\<close> is the list of the buffer's bytes. A setter
  throws \<open>RangeError\<close> when the field does not lie inside the buffer. The value written is
  the argument converted to the field's width (\<open>ToUint8\<close>, \<open>ToUint16\<close>, \<open>ToUint32\<close>: the
  integer modulo \<open>2 ^ w\<close>), which the callers below do with \<open>of_nat\<close>, \<open>of_int\<close> and
  \<open>ucast\<close>; the multi-byte setters are the little-endian ones (\<open>littleEndian = true\<close>).
\<close>

definition setUint8 :: "byte list \<Rightarrow> nat \<Rightarrow> byte \<Rightarrow> error + byte list" where
  "setUint8 view offset v =
     (if length view < offset + 1 then Inl RangeError
      else Inr (view[offset := v]))"

definition setUint16 :: "byte list \<Rightarrow> nat \<Rightarrow> 16 word \<Rightarrow> error + byte list" where
  "setUint16 view offset v =
     (if length view < offset + 2 then Inl RangeError
      else Inr (view[offset := ucast v, offset + 1 := ucast (drop_bit 8 v)]))"

definition setUint32 :: "byte list \<Rightarrow> nat \<Rightarrow> 32 word \<Rightarrow> error + byte list" where
  "setUint32 view offset v =
     (if length view < offset + 4 then Inl RangeError
      else Inr (view[offset := ucast v, offset + 1 := ucast (drop_bit 8 v),
                     offset + 2 := ucast (drop_bit 16 v),
                     offset + 3 := ucast (drop_bit 24 v)]))"

fun writeString :: "byte list \<Rightarrow> nat \<Rightarrow> jsstring \<Rightarrow> error + byte list" where
  "writeString view offset [] = Inr view"
| "writeString view offset (c # cs) =
     (case setUint8 view offset (ucast c) of
        Inl e \<Rightarrow> Inl e
      | Inr view' \<Rightarrow> writeString view' (offset + 1) cs)"

text \<open>Sequencing of statements that may throw: the first exception ends the function.\<close>

definition and_then :: "error + 'a \<Rightarrow> ('a \<Rightarrow> error + 'b) \<Rightarrow> error + 'b" where
  "and_then r f = (case r of Inl e \<Rightarrow> Inl e | Inr x \<Rightarrow> f x)"

text \<open>
  \<open>pcmToWav\<close>: the sample rate is an integer here (a \<open>number\<close> with a fraction is not
  modelled). \<open>new Uint8Array(buffer, 44).set(pcmData)\<close> copies the PCM bytes to offset 44
  of the buffer, and the blob holds the bytes of the buffer.
\<close>

definition pcmToWav :: "byte list \<Rightarrow> int \<Rightarrow> error + byte list" where
  "pcmToWav pcmData sampleRate =
     and_then (writeString (replicate (44 + length pcmData) 0) 0 (str ''RIFF'')) (\<lambda>view.
     and_then (setUint32 view 4 (of_nat (36 + length pcmData))) (\<lambda>view.
     and_then (writeString view 8 (str ''WAVE'')) (\<lambda>view.
     and_then (writeString view 12 (str ''fmt '')) (\<lambda>view.
     and_then (setUint32 view 16 16) (\<lambda>view.
     and_then (setUint16 view 20 1) (\<lambda>view.
     and_then (setUint16 view 22 1) (\<lambda>view.
     and_then (setUint32 view 24 (of_int sampleRate)) (\<lambda>view.
     and_then (setUint32 view 28 (of_int (sampleRate * 2))) (\<lambda>view.
     and_then (setUint16 view 32 2) (\<lambda>view.
     and_then (setUint16 view 34 16) (\<lambda>view.
     and_then (writeString view 36 (str ''data'')) (\<lambda>view.
     and_then (setUint32 view 40 (of_nat (length pcmData))) (\<lambda>view.
     typed_set view pcmData 44)))))))))))))"

text \<open>The little-endian bytes of a field, as a reader of the file sees them.\<close>

definition u16le :: "16 word \<Rightarrow> byte list" where
  "u16le v = [ucast v, ucast (drop_bit 8 v)]"

definition u32le :: "32 word \<Rightarrow> byte list" where
  "u32le v = [ucast v, ucast (drop_bit 8 v), ucast (drop_bit 16 v), ucast (drop_bit 24 v)]"

definition ascii :: "string \<Rightarrow> byte list" where
  "ascii s = map of_char s"

section \<open>The PCM decoder\<close>

text \<open>
  A JavaScript number that the decoder and the transcoder compute with: a rational (the
  values at hand are sixteen-bit integers divided by \<open>2 ^ 15\<close>, array lengths and their
  quotients, and single-precision samples times \<open>32767\<close> or \<open>32768\<close>, all of which
  double precision holds exactly or compares and truncates like the exact quotient), or
  \<open>NaN\<close>.
\<close>

datatype number = Num rat | NaN

record AudioContext =
  maxChannels :: nat
  minSampleRate :: int
  maxSampleRate :: int

record AudioBuffer =
  numberOfChannels :: nat
  bufferSampleRate :: int
  channels :: "number list list"

text \<open>
  \<open>ToUint32\<close> of a finite number: the fraction is dropped (towards zero) and the integer
  is taken modulo \<open>2 ^ 32\<close>.
\<close>

definition js_trunc :: "rat \<Rightarrow> int" where
  "js_trunc x = (if x < 0 then \<lceil>x\<rceil> else \<lfloor>x\<rfloor>)"

definition ToUint32 :: "rat \<Rightarrow> nat" where
  "ToUint32 x = nat (js_trunc x mod 2 ^ 32)"

text \<open>
  \<open>BaseAudioContext.createBuffer(numberOfChannels, length, sampleRate)\<close> of the platform,
  after the Web Audio standard: \<open>length\<close> is an \<open>unsigned long\<close>, so the argument goes
  through \<open>ToUint32\<close>; \<open>NotSupportedError\<close> is thrown when an argument is zero or outside
  the range the context supports; the new buffer is silent.
\<close>

definition createBuffer ::
  "AudioContext \<Rightarrow> nat \<Rightarrow> rat \<Rightarrow> int \<Rightarrow> error + AudioBuffer" where
  "createBuffer ctx numChannels len rate =
     (if numChannels = 0 \<or> maxChannels ctx < numChannels \<or> ToUint32 len = 0
         \<or> rate < minSampleRate ctx \<or> maxSampleRate ctx < rate
      then Inl NotSupportedError
      else Inr \<lparr>numberOfChannels = numChannels, bufferSampleRate = rate,
                channels = replicate numChannels (replicate (ToUint32 len) (Num 0))\<rparr>)"

text \<open>
  The \<open>Uint8Array\<close> that \<open>decodeAudioData\<close> receives: the bytes it shows, and
  \<open>data.byteOffset\<close>, the place in \<open>data.buffer\<close> where they start. (Elsewhere only the
  bytes of an array matter, and an array is the list of them.)
\<close>

record Uint8Array =
  elements :: "byte list"
  byteOffset :: nat

text \<open>
  \<open>new Int16Array(data.buffer, data.byteOffset, count)\<close> throws \<open>RangeError\<close> when the
  offset is not a multiple of two or when \<open>count\<close> elements do not fit; \<open>bytes\<close> are the
  bytes of the buffer from the offset on. Element \<open>k\<close> is made of bytes \<open>2k\<close> (low) and
  \<open>2k + 1\<close> (high), in the byte order of the platform, which is little-endian.
\<close>

definition le16 :: "byte \<Rightarrow> byte \<Rightarrow> 16 word" where
  "le16 lo hi = push_bit 8 (ucast hi) OR ucast lo"

definition Int16Array :: "byte list \<Rightarrow> nat \<Rightarrow> nat \<Rightarrow> error + 16 word list" where
  "Int16Array bytes offset count =
     (if odd offset \<or> length bytes < 2 * count then Inl RangeError
      else Inr (map (\<lambda>k. le16 (bytes ! (2 * k)) (bytes ! (2 * k + 1))) [0 ..< count]))"

text \<open>
  \<open>dataInt16[idx] / 32768.0\<close>: an index outside the array reads \<open>undefined\<close>, and
  \<open>undefined / 32768.0\<close> is \<open>NaN\<close>.
\<close>

definition sample_value :: "16 word list \<Rightarrow> nat \<Rightarrow> number" where
  "sample_value dataInt16 idx =
     (if idx < length dataInt16 then Num (of_int (sint (dataInt16 ! idx)) / 32768) else NaN)"

text \<open>\<open>channelData[i] = v\<close>: a store outside a typed array does nothing.\<close>

definition store_at :: "number list \<Rightarrow> nat \<Rightarrow> number \<Rightarrow> number list" where
  "store_at channelData i v = (if i < length channelData then channelData[i := v] else channelData)"

text \<open>
  The inner loop \<open>for (let i = 0; i < frameCount; i++)\<close> runs for the naturals below
  \<open>frameCount\<close>, which need not be an integer.
\<close>

definition fill_channel ::
  "16 word list \<Rightarrow> nat \<Rightarrow> rat \<Rightarrow> nat \<Rightarrow> number list \<Rightarrow> number list" where
  "fill_channel dataInt16 numChannels frameCount channel channelData =
     foldl (\<lambda>cd i. store_at cd i (sample_value dataInt16 (i * numChannels + channel)))
       channelData [0 ..< nat \<lceil>frameCount\<rceil>]"

definition fill_buffer :: "16 word list \<Rightarrow> nat \<Rightarrow> rat \<Rightarrow> AudioBuffer \<Rightarrow> AudioBuffer" where
  "fill_buffer dataInt16 numChannels frameCount buffer =
     buffer\<lparr>channels :=
       foldl (\<lambda>chs channel.
                chs[channel := fill_channel dataInt16 numChannels frameCount channel (chs ! channel)])
         (channels buffer) [0 ..< numChannels]\<rparr>"

text \<open>
  \<open>decodeAudioData\<close>; \<open>None\<close> is a null or undefined \<open>data\<close>. An exception of the
  \<open>Int16Array\<close> constructor is not caught. With \<open>numChannels = 0\<close> the
  quotient \<open>frameCount\<close> is \<open>NaN\<close> or \<open>Infinity\<close>, the test \<open>frameCount <= 0\<close> is false and
  \<open>createBuffer\<close> is called with a length that \<open>ToUint32\<close> turns into 0.
\<close>

definition decodeAudioData ::
  "Uint8Array option \<Rightarrow> AudioContext \<Rightarrow> int \<Rightarrow> nat \<Rightarrow> error + AudioBuffer" where
  "decodeAudioData data ctx rate numChannels =
     (case data of
        None \<Rightarrow> createBuffer ctx numChannels 1 rate
      | Some array \<Rightarrow>
          if length (elements array) = 0 then createBuffer ctx numChannels 1 rate
          else
            (let alignedLength = length (elements array) div 2 * 2
             in case Int16Array (elements array) (byteOffset array) (alignedLength div 2) of
                  Inl e \<Rightarrow> Inl e
                | Inr dataInt16 \<Rightarrow>
                    if numChannels = 0 then createBuffer ctx numChannels 0 rate
                    else
                      (let frameCount = of_nat (length dataInt16) / of_nat numChannels
                       in if frameCount \<le> 0 then createBuffer ctx numChannels 1 rate
                          else (case createBuffer ctx numChannels frameCount rate of
                                  Inl e \<Rightarrow> Inl e
                                | Inr buffer \<Rightarrow>
                                    Inr (fill_buffer dataInt16 numChannels frameCount buffer)))))"

section \<open>The transcoder\<close>

text \<open>\<open>Math.min\<close> and \<open>Math.max\<close> return \<open>NaN\<close> when an argument is \<open>NaN\<close>.\<close>

fun js_min :: "number \<Rightarrow> number \<Rightarrow> number" where
  "js_min (Num a) (Num b) = Num (min a b)"
| "js_min _ _ = NaN"

fun js_max :: "number \<Rightarrow> number \<Rightarrow> number" where
  "js_max (Num a) (Num b) = Num (max a b)"
| "js_max _ _ = NaN"

text \<open>
  A store into an \<open>Int16Array\<close> converts with \<open>ToInt16\<close>: \<open>NaN\<close> becomes 0, a finite
  number loses its fraction (towards zero) and is taken modulo \<open>2 ^ 16\<close>.
\<close>

fun ToInt16 :: "number \<Rightarrow> 16 word" where
  "ToInt16 (Num x) = of_int (js_trunc x)"
| "ToInt16 NaN = 0"

text \<open>
  The body of the loop of \<open>fileToPcm16k\<close>: \<open>s = Math.max(-1, Math.min(1, floatData[i]))\<close>
  and \<open>int16Data[i] = s < 0 ? s * 0x8000 : s * 0x7FFF\<close>. A comparison with \<open>NaN\<close> is
  false and a product with \<open>NaN\<close> is \<open>NaN\<close>.
\<close>

definition quantize :: "number \<Rightarrow> 16 word" where
  "quantize x =
     (let s = js_max (Num (- 1)) (js_min (Num 1) x)
      in ToInt16 (case s of
                    Num v \<Rightarrow> if v < 0 then Num (v * 32768) else Num (v * 32767)
                  | NaN \<Rightarrow> NaN))"

text \<open>
  \<open>new Uint8Array(int16Data.buffer)\<close>: the bytes of the samples in the byte order of the
  platform (little-endian).
\<close>

definition int16_bytes :: "16 word list \<Rightarrow> byte list" where
  "int16_bytes ws = concat (map u16le ws)"

text \<open>
  The last part of \<open>fileToPcm16k\<close>, from \<open>floatData\<close> on: the loop over the samples and
  the call of \<open>encode\<close>.
\<close>

definition fileToPcm16k :: "number list \<Rightarrow> error + jsstring" where
  "fileToPcm16k floatData = encode (int16_bytes (map quantize floatData))"

text \<open>
  The first part of \<open>fileToPcm16k\<close> computes the length of the offline context as
  \<open>Math.ceil(audioBuffer.duration * 16000)\<close>, in double precision. A double is the
  rational it stands for, \<open>None\<close> is an infinity. \<open>double_of\<close> rounds a rational to the
  nearest double, ties to the even significand (IEEE 754 binary64): \<open>binary_exponent\<close> is
  the \<open>e\<close> with \<open>2 ^ e \<le> x < 2 ^ (e + 1)\<close>, a double has 53 significant bits with the
  last one worth \<open>2 ^ (e - 52)\<close>, never less than \<open>2 ^ (- 1074)\<close>, and a result of
  \<open>2 ^ 1024\<close> or more overflows.
\<close>

fun bit_length :: "nat \<Rightarrow> nat" where
  "bit_length n = (if n = 0 then 0 else Suc (bit_length (n div 2)))"

definition pow2 :: "int \<Rightarrow> rat" where
  "pow2 e = (if 0 \<le> e then 2 ^ nat e else 1 / 2 ^ nat (- e))"

definition binary_exponent :: "rat \<Rightarrow> int" where
  "binary_exponent x =
     (if 1 \<le> x then int (bit_length (nat \<lfloor>x\<rfloor>)) - 1
      else - int (bit_length (nat (\<lceil>1 / x\<rceil> - 1))))"

definition round_half_even :: "rat \<Rightarrow> int" where
  "round_half_even m =
     (let f = \<lfloor>m\<rfloor>; r = m - of_int f
      in if r < 1 / 2 then f else if 1 / 2 < r then f + 1 else if even f then f else f + 1)"

definition double_of :: "rat \<Rightarrow> rat option" where
  "double_of x =
     (if x = 0 then Some 0
      else
        (let q = pow2 (max (binary_exponent \<bar>x\<bar>) (- 1022) - 52);
             y = of_int (round_half_even (\<bar>x\<bar> / q)) * q
         in if pow2 1024 \<le> y then None else Some (sgn x * y)))"

text \<open>
  \<open>audioBuffer.length\<close> is the number of frames of a channel, and \<open>audioBuffer.duration\<close>
  is, after the Web Audio standard, the length divided by the sample rate, a double. A
  buffer that the platform decoded has at least one frame and a positive sample rate.
\<close>

definition buffer_length :: "AudioBuffer \<Rightarrow> nat" where
  "buffer_length b = (case channels b of [] \<Rightarrow> 0 | c # _ \<Rightarrow> length c)"

definition duration :: "AudioBuffer \<Rightarrow> rat option" where
  "duration b = double_of (of_nat (buffer_length b) / of_int (bufferSampleRate b))"

text \<open>The product of two doubles, the second finite; an infinity times 16000 is an infinity.\<close>

definition js_times :: "rat option \<Rightarrow> rat \<Rightarrow> rat option" where
  "js_times a b = (case a of None \<Rightarrow> None | Some x \<Rightarrow> double_of (x * b))"

definition Math_ceil :: "rat option \<Rightarrow> rat option" where
  "Math_ceil a = (case a of None \<Rightarrow> None | Some x \<Rightarrow> Some (of_int \<lceil>x\<rceil>))"

text \<open>
  \<open>new OfflineAudioContext(numberOfChannels, length, sampleRate)\<close> of the platform, after
  the Web Audio standard: \<open>length\<close> is an \<open>unsigned long\<close> (\<open>ToUint32\<close>, which turns an
  infinity into 0), and \<open>NotSupportedError\<close> is thrown when an argument is zero or not
  positive. \<open>startRendering\<close> returns a buffer of that many channels and exactly that
  many frames at that rate; what the frames hold is the platform's resampling of the
  source, \<open>rendered c i\<close> for frame \<open>i\<close> of channel \<open>c\<close>.
\<close>

record OfflineContext =
  renderChannels :: nat
  renderLength :: nat
  renderSampleRate :: int

definition OfflineAudioContext :: "nat \<Rightarrow> rat option \<Rightarrow> int \<Rightarrow> error + OfflineContext" where
  "OfflineAudioContext numChannels len rate =
     (let n = (case len of None \<Rightarrow> 0 | Some x \<Rightarrow> ToUint32 x)
      in if numChannels = 0 \<or> n = 0 \<or> rate \<le> 0 then Inl NotSupportedError
         else Inr \<lparr>renderChannels = numChannels, renderLength = n, renderSampleRate = rate\<rparr>)"

definition startRendering :: "OfflineContext \<Rightarrow> (nat \<Rightarrow> nat \<Rightarrow> number) \<Rightarrow> AudioBuffer" where
  "startRendering offlineCtx rendered =
     \<lparr>numberOfChannels = renderChannels offlineCtx,
      bufferSampleRate = renderSampleRate offlineCtx,
      channels = map (\<lambda>c. map (rendered c) [0 ..< renderLength offlineCtx])
                   [0 ..< renderChannels offlineCtx]\<rparr>"

text \<open>\<open>getChannelData(channel)\<close> throws \<open>IndexSizeError\<close> for a channel the buffer lacks.\<close>

definition getChannelData :: "AudioBuffer \<Rightarrow> nat \<Rightarrow> error + number list" where
  "getChannelData b channel =
     (if channel < length (channels b) then Inr (channels b ! channel) else Inl IndexSizeError)"

text \<open>
  \<open>resampledBuffer\<close> of \<open>fileToPcm16k\<close>, from the \<open>audioBuffer\<close> that the platform decoded
  from the file (a file it cannot decode rejects the promise before).
\<close>

definition resampledBuffer :: "AudioBuffer \<Rightarrow> (nat \<Rightarrow> nat \<Rightarrow> number) \<Rightarrow> error + AudioBuffer" where
  "resampledBuffer audioBuffer rendered =
     (case OfflineAudioContext 1 (Math_ceil (js_times (duration audioBuffer) 16000)) 16000 of
        Inl e \<Rightarrow> Inl e
      | Inr offlineCtx \<Rightarrow> Inr (startRendering offlineCtx rendered))"

text \<open>\<open>fileToPcm16k\<close> as a whole, from the decoded \<open>audioBuffer\<close>.\<close>

definition fileToPcm16k_decoded ::
  "AudioBuffer \<Rightarrow> (nat \<Rightarrow> nat \<Rightarrow> number) \<Rightarrow> error + jsstring" where
  "fileToPcm16k_decoded audioBuffer rendered =
     (case resampledBuffer audioBuffer rendered of
        Inl e \<Rightarrow> Inl e
      | Inr resampled \<Rightarrow>
          (case getChannelData resampled 0 of
             Inl e \<Rightarrow> Inl e
           | Inr floatData \<Rightarrow> fileToPcm16k floatData))"

text \<open>A source that renders to silence.\<close>

definition silence :: "nat \<Rightarrow> nat \<Rightarrow> number" where
  "silence c i = Num 0"

section \<open>The streaming exchange of \<open>generateSpeech\<close>\<close>

text \<open>
  The state that the callbacks of \<open>generateSpeech\<close> share, with the calls of \<open>resolve\<close>
  and \<open>reject\<close> recorded in order and the calls of \<open>session.close\<close> counted. JavaScript
  runs each callback to its end before the next one starts (\<open>onmessage\<close> is \<open>async\<close>
  but awaits nothing), so an exchange is a sequence of events.
\<close>

datatype outcome = Resolved jsstring | Rejected jsstring

record session =
  accumulatedAudioChunks :: "jsstring list"
  accumulatedText :: jsstring
  isResolved :: bool
  hasReceivedAudio :: bool
  settled :: "outcome list"
  closeRequests :: nat

text \<open>
  A part of a server message: \<open>part.inlineData?.data\<close> and \<open>part.text\<close>, \<open>None\<close> when
  absent. A message: \<open>serverContent?.modelTurn?.parts || []\<close> and whether
  \<open>serverContent?.turnComplete\<close> is truthy.
\<close>

record part =
  inlineData :: "jsstring option"
  partText :: "jsstring option"

record message =
  parts :: "part list"
  turnComplete :: bool

datatype event =
    OnOpen
  | OnMessage message
  | OnError "jsstring option"
  | OnClose
  | Timeout

definition initial :: session where
  "initial = \<lparr>accumulatedAudioChunks = [], accumulatedText = [], isResolved = False,
              hasReceivedAudio = False, settled = [], closeRequests = 0\<rparr>"

text \<open>A string or an absent value is truthy when it is a non-empty string.\<close>

definition truthy :: "jsstring option \<Rightarrow> bool" where
  "truthy v = (case v of None \<Rightarrow> False | Some s \<Rightarrow> s \<noteq> [])"

text \<open>
  \<open>String.prototype.trim\<close> removes the white space and line terminators of ECMAScript
  from both ends.
\<close>

definition js_whitespace :: "code_unit \<Rightarrow> bool" where
  "js_whitespace c =
     (c = 0x0009 \<or> c = 0x000A \<or> c = 0x000B \<or> c = 0x000C \<or> c = 0x000D \<or> c = 0x0020
      \<or> c = 0x00A0 \<or> c = 0x1680 \<or> (0x2000 \<le> c \<and> c \<le> 0x200A) \<or> c = 0x2028
      \<or> c = 0x2029 \<or> c = 0x202F \<or> c = 0x205F \<or> c = 0x3000 \<or> c = 0xFEFF)"

definition trim :: "jsstring \<Rightarrow> jsstring" where
  "trim s = rev (dropWhile js_whitespace (rev (dropWhile js_whitespace s)))"

text \<open>
  \<open>resolve(combineBase64Chunks(accumulatedAudioChunks))\<close>, after \<open>isResolved = true\<close>:
  were \<open>combineBase64Chunks\<close> to throw, \<open>resolve\<close> would not be called.
\<close>

definition resolve_combined :: "session \<Rightarrow> session" where
  "resolve_combined s =
     (case combineBase64Chunks (accumulatedAudioChunks s) of
        Inl e \<Rightarrow> s
      | Inr audio \<Rightarrow> s\<lparr>settled := settled s @ [Resolved audio]\<rparr>)"

definition reject_with :: "jsstring \<Rightarrow> session \<Rightarrow> session" where
  "reject_with msg s = s\<lparr>settled := settled s @ [Rejected msg]\<rparr>"

definition request_close :: "session \<Rightarrow> session" where
  "request_close s = s\<lparr>closeRequests := closeRequests s + 1\<rparr>"

text \<open>The body of \<open>for (const part of parts)\<close>.\<close>

definition add_part :: "session \<Rightarrow> part \<Rightarrow> session" where
  "add_part s p =
     (let s1 = (if truthy (inlineData p)
                then s\<lparr>accumulatedAudioChunks :=
                         accumulatedAudioChunks s @ [case inlineData p of Some d \<Rightarrow> d | None \<Rightarrow> []],
                       hasReceivedAudio := True\<rparr>
                else s)
      in if truthy (partText p)
         then s1\<lparr>accumulatedText :=
                   accumulatedText s1 @ (case partText p of Some t \<Rightarrow> t | None \<Rightarrow> [])\<rparr>
         else s1)"

definition onmessage :: "session \<Rightarrow> message \<Rightarrow> session" where
  "onmessage s0 m =
     (let s = foldl add_part s0 (parts m)
      in if turnComplete m then
           (if \<not> isResolved s then
              (if hasReceivedAudio s then
                 (case combineBase64Chunks (accumulatedAudioChunks s) of
                    Inl e \<Rightarrow> s\<lparr>isResolved := True\<rparr>
                  | Inr audio \<Rightarrow>
                      request_close (s\<lparr>isResolved := True, settled := settled s @ [Resolved audio]\<rparr>))
               else if 0 < length (trim (accumulatedText s)) then
                 request_close
                   (reject_with (str ''Vocal Replication Error: '' @ accumulatedText s)
                      (s\<lparr>isResolved := True\<rparr>))
               else s)
            else s)
         else s)"

definition onerror :: "session \<Rightarrow> jsstring option \<Rightarrow> session" where
  "onerror s err_message =
     (if \<not> isResolved s then
        reject_with
          (str ''API Error: '' @
             (case err_message of
                None \<Rightarrow> str ''Unknown connection error''
              | Some m \<Rightarrow> if m \<noteq> [] then m else str ''Unknown connection error''))
          (s\<lparr>isResolved := True\<rparr>)
      else s)"

definition onclose :: "session \<Rightarrow> session" where
  "onclose s =
     (if \<not> isResolved s then
        (if 0 < length (accumulatedAudioChunks s) then resolve_combined (s\<lparr>isResolved := True\<rparr>)
         else reject_with
                (str ''Vocal clone session closed prematurely. Ensure the reference clip is clear.'')
                (s\<lparr>isResolved := True\<rparr>))
      else s)"

definition ontimeout :: "session \<Rightarrow> session" where
  "ontimeout s =
     (if \<not> isResolved s then
        (if 0 < length (accumulatedAudioChunks s) then
           (case combineBase64Chunks (accumulatedAudioChunks s) of
              Inl e \<Rightarrow> s\<lparr>isResolved := True\<rparr>
            | Inr audio \<Rightarrow>
                request_close (s\<lparr>isResolved := True, settled := settled s @ [Resolved audio]\<rparr>))
         else
           request_close
             (reject_with
                (if accumulatedText s \<noteq> [] then str ''Vocal cloning failed: '' @ accumulatedText s
                 else str ''Vocal cloning timeout. The complexity of the reference exceeded processing limits.'')
                (s\<lparr>isResolved := True\<rparr>)))
      else s)"

text \<open>\<open>onopen\<close> sends the reference audio and the instruction and leaves the state alone.\<close>

fun handle :: "session \<Rightarrow> event \<Rightarrow> session" where
  "handle s OnOpen = s"
| "handle s (OnMessage m) = onmessage s m"
| "handle s (OnError err_message) = onerror s err_message"
| "handle s OnClose = onclose s"
| "handle s Timeout = ontimeout s"

definition generateSpeech :: "event list \<Rightarrow> session" where
  "generateSpeech events = foldl handle initial events"

text \<open>An event that decides a pending exchange whatever has been received.\<close>

fun deciding :: "event \<Rightarrow> bool" where
  "deciding (OnError err_message) = True"
| "deciding OnClose = True"
| "deciding Timeout = True"
| "deciding _ = False"

section \<open>Auxiliary definitions\<close>

text \<open>
  The sextets of the text of \<open>base64_encode\<close> before padding; used to state what
  \<open>remove_padding\<close> leaves.
\<close>

fun body_sextets :: "byte list \<Rightarrow> nat list" where
  "body_sextets (a # b # c # rest) =
     (let n = (unat a * 256 + unat b) * 256 + unat c
      in (n div 262144) mod 64 # (n div 4096) mod 64 # (n div 64) mod 64 # n mod 64 #
         body_sextets rest)"
| "body_sextets [a, b] =
     (let n = (unat a * 256 + unat b) * 4
      in [(n div 4096) mod 64, (n div 64) mod 64, n mod 64])"
| "body_sextets [a] =
     (let n = unat a * 16
      in [(n div 64) mod 64, n mod 64])"
| "body_sextets [] = []"

text \<open>
  A buffer whose first bytes are written and whose remaining \<open>m\<close> bytes are still zero:
  the shape of the buffer of \<open>pcmToWav\<close> between two writes.
\<close>

definition zero_padded :: "byte list \<Rightarrow> nat \<Rightarrow> byte list" where
  "zero_padded H m = H @ replicate m 0"

text \<open>
  The number that a reader of a little-endian field gets from its bytes; used to check
  \<open>u16le\<close> and \<open>u32le\<close>.
\<close>

definition read_le :: "byte list \<Rightarrow> nat" where
  "read_le bs = foldr (\<lambda>b acc. unat b + 256 * acc) bs 0"

text \<open>
  What holds of the shared state after any sequence of events: audio has been received
  exactly when a chunk is stored, and the promise is settled exactly when \<open>isResolved\<close>
  is set.
\<close>

definition pending_inv :: "session \<Rightarrow> bool" where
  "pending_inv s =
     ((hasReceivedAudio s = (accumulatedAudioChunks s \<noteq> [])) \<and>
      (if isResolved s then length (settled s) = 1 else settled s = []))"

section \<open>Properties of the base64 functions\<close>

declare bit_length.simps [simp del]

lemma base64_alphabet_length: "length base64_alphabet = 64"
  by (simp add: base64_alphabet_def str_def)

lemma base64_alphabet_distinct: "distinct base64_alphabet"
  by (simp add: base64_alphabet_def str_def)

lemma char_sextet_sextet_char: "char_sextet (sextet_char v) = Some (v mod 64)"
proof -
  have "map_of (zip base64_alphabet [0..<64]) (base64_alphabet ! (v mod 64)) = Some ([0..<64] ! (v mod 64))"
    by (rule map_of_zip_nth) (simp_all add: base64_alphabet_length base64_alphabet_distinct)
  then show ?thesis
    by (simp add: char_sextet_def sextet_char_def)
qed

lemma char_sextet_pad: "char_sextet pad_char = None"
  by (simp add: char_sextet_def pad_char_def base64_alphabet_def str_def upt_rec)


lemma byte_of_nat_eq: "(of_nat k :: byte) = w \<longleftrightarrow> k mod 256 = unat w"
  by (auto simp add: unat_of_nat word_unat_eq_iff)

lemma unat_byte_less: "unat (a :: byte) < 256"
  using unsigned_less [of a] by simp

lemma digits2:
  fixes n :: nat
  assumes "n < 4096"
  shows "n div 64 mod 64 * 64 + n mod 64 = n"
proof -
  have "n div 64 < 64" using assms by simp
  then show ?thesis by simp
qed

lemma digits3:
  fixes n :: nat
  assumes "n < 262144"
  shows "(n div 4096 mod 64 * 64 + n div 64 mod 64) * 64 + n mod 64 = n"
proof -
  define q1 where "q1 = n div 64"
  have e1: "n div 4096 = q1 div 64" by (simp add: q1_def div_mult2_eq)
  have "q1 div 64 < 64" using assms unfolding e1 [symmetric] by simp
  then have "q1 div 64 mod 64 * 64 + q1 mod 64 = q1" by simp
  moreover have "q1 * 64 + n mod 64 = n" by (simp add: q1_def)
  ultimately show ?thesis unfolding e1 q1_def [symmetric] by simp
qed

lemma digits4:
  fixes n :: nat
  assumes "n < 16777216"
  shows "((n div 262144 mod 64 * 64 + n div 4096 mod 64) * 64 + n div 64 mod 64) * 64
           + n mod 64 = n"
proof -
  define q1 where "q1 = n div 64"
  define q2 where "q2 = q1 div 64"
  have e1: "n div 4096 = q2" by (simp add: q1_def q2_def div_mult2_eq)
  have e2: "n div 262144 = q2 div 64" by (simp add: q1_def q2_def div_mult2_eq)
  have "q2 div 64 < 64" using assms unfolding e2 [symmetric] by simp
  then have "q2 div 64 mod 64 * 64 + q2 mod 64 = q2" by simp
  moreover have "q2 * 64 + q1 mod 64 = q1" by (simp add: q2_def)
  moreover have "q1 * 64 + n mod 64 = n" by (simp add: q1_def)
  ultimately show ?thesis unfolding e1 e2 q1_def [symmetric] by simp
qed

lemma group3_bound: "(unat (a::byte) * 256 + unat (b::byte)) * 256 + unat (c::byte) < 16777216"
  using unat_byte_less [of a] unat_byte_less [of b] unat_byte_less [of c] by simp

lemma group3_bytes:
  fixes a b c :: byte
  defines "n \<equiv> (unat a * 256 + unat b) * 256 + unat c"
  shows "of_nat (n div 65536) = a" "of_nat (n div 256) = b" "of_nat n = c"
proof -
  have d1: "n div 256 = unat a * 256 + unat b"
    using unat_byte_less [of c] by (simp add: n_def)
  have "n div 65536 = n div 256 div 256" by (simp add: div_mult2_eq)
  also have "\<dots> = unat a" unfolding d1 using unat_byte_less [of b] by simp
  finally show "of_nat (n div 65536) = a" by simp
  show "of_nat (n div 256) = b"
    unfolding d1 byte_of_nat_eq using unat_byte_less [of b] by simp
  have "n mod 256 = unat c mod 256"
    unfolding n_def by (rule mod_mult_self3)
  then show "of_nat n = c"
    unfolding byte_of_nat_eq using unat_byte_less [of c] by simp
qed


lemma group2_bytes:
  fixes a b :: byte
  defines "n \<equiv> (unat a * 256 + unat b) * 4"
  shows "of_nat (n div 4 div 256) = a" "of_nat (n div 4) = b"
proof -
  have d1: "n div 4 = unat a * 256 + unat b"
    by (simp add: n_def)
  show "of_nat (n div 4 div 256) = a"
    unfolding d1 using unat_byte_less [of b] by simp
  have "(unat a * 256 + unat b) mod 256 = unat b mod 256"
    by (rule mod_mult_self3)
  then show "of_nat (n div 4) = b"
    unfolding d1 byte_of_nat_eq using unat_byte_less [of b] by simp
qed

lemma group2_bound: "(unat (a::byte) * 256 + unat (b::byte)) * 4 < 262144"
  using unat_byte_less [of a] unat_byte_less [of b] by simp

lemma group1_bound: "unat (a::byte) * 16 < 4096"
  using unat_byte_less [of a] by simp

lemma char_sextet_whitespace: "ascii_whitespace c \<Longrightarrow> char_sextet c = None"
  unfolding ascii_whitespace_def char_sextet_def
  by (elim disjE) (simp_all add: base64_alphabet_def str_def upt_rec)

lemma sextet_char_not_pad: "sextet_char v \<noteq> pad_char"
  using char_sextet_sextet_char [of v] char_sextet_pad by auto

lemma sextet_char_not_whitespace: "\<not> ascii_whitespace (sextet_char v)"
  using char_sextet_sextet_char [of v] char_sextet_whitespace [of "sextet_char v"] by auto

lemma pad_not_whitespace: "\<not> ascii_whitespace pad_char"
  by (simp add: ascii_whitespace_def pad_char_def)

lemma base64_encode_no_whitespace:
  "filter (\<lambda>c. \<not> ascii_whitespace c) (base64_encode bs) = base64_encode bs"
  by (induction bs rule: base64_encode.induct)
     (simp_all add: Let_def sextet_char_not_whitespace pad_not_whitespace)

lemma base64_encode_length: "length (base64_encode bs) mod 4 = 0"
  by (induction bs rule: base64_encode.induct) (simp_all add: Let_def)

lemma base64_encode_Nil: "base64_encode bs = [] \<longleftrightarrow> bs = []"
  by (cases bs rule: base64_encode.cases) (simp_all add: Let_def)

lemma sextet_char_mod: "sextet_char (v mod 64) = sextet_char v"
  by (simp add: sextet_char_def)

lemma remove_padding_Cons4:
  assumes "ys \<noteq> []" "length ys mod 4 = 0"
  shows "remove_padding (x0 # x1 # x2 # x3 # ys) = x0 # x1 # x2 # x3 # remove_padding ys"
proof -
  obtain e1 t where t: "rev ys = e1 # t"
    using assms(1) by (cases "rev ys") auto
  have "t \<noteq> []"
  proof
    assume "t = []"
    with t have "length (rev ys) = 1" by simp
    with assms(2) show False by simp
  qed
  then obtain e2 r where "t = e2 # r" by (cases t) auto
  with t have r: "rev ys = e1 # e2 # r" by simp
  have ys: "ys = rev r @ [e2, e1]" using r by (metis rev_rev_ident rev.simps append.assoc append_Cons append_Nil)
  have "length (x0 # x1 # x2 # x3 # ys) = 4 + length ys" by simp
  then have len: "length (x0 # x1 # x2 # x3 # ys) mod 4 = 0"
    using assms(2) by (simp only: mod_add_self1)
  have rv: "rev (x0 # x1 # x2 # x3 # ys) = e1 # e2 # (r @ [x3, x2, x1, x0])"
    using r by simp
  have "remove_padding (x0 # x1 # x2 # x3 # ys) =
          (if e1 = pad_char \<and> e2 = pad_char then rev (r @ [x3, x2, x1, x0])
           else if e1 = pad_char then rev (e2 # r @ [x3, x2, x1, x0])
           else x0 # x1 # x2 # x3 # ys)"
    unfolding remove_padding_def len rv by simp
  moreover have "remove_padding ys =
          (if e1 = pad_char \<and> e2 = pad_char then rev r
           else if e1 = pad_char then rev (e2 # r)
           else ys)"
    unfolding remove_padding_def assms(2) r by simp
  ultimately show ?thesis by (simp add: ys)
qed

lemma remove_padding_base64_encode:
  "remove_padding (base64_encode bs) = map sextet_char (body_sextets bs)"
proof (induction bs rule: base64_encode.induct)
  case (1 a b c rest)
  show ?case
  proof (cases "rest = []")
    case True
    then show ?thesis
      by (simp add: remove_padding_def Let_def sextet_char_not_pad sextet_char_mod)
  next
    case False
    then have "base64_encode rest \<noteq> []" by (simp add: base64_encode_Nil)
    then show ?thesis
      using 1 by (simp add: Let_def remove_padding_Cons4 base64_encode_length sextet_char_mod)
  qed
next
  case (2 a b)
  show ?case by (simp add: remove_padding_def Let_def sextet_char_not_pad sextet_char_mod)
next
  case (3 a)
  show ?case by (simp add: remove_padding_def Let_def sextet_char_not_pad sextet_char_mod)
next
  case 4
  show ?case by (simp add: remove_padding_def)
qed

lemma sextets_of_map_sextet_char:
  "sextets_of (map sextet_char vs) = Some (map (\<lambda>v. v mod 64) vs)"
  by (induction vs) (simp_all add: char_sextet_sextet_char)

lemma body_sextets_mod: "map (\<lambda>v. v mod 64) (body_sextets bs) = body_sextets bs"
  by (induction bs rule: body_sextets.induct) (simp_all add: Let_def)

lemma body_sextets_length: "length (body_sextets bs) mod 4 \<noteq> Suc 0"
  by (induction bs rule: body_sextets.induct) (simp_all add: Let_def)

lemma decode_group3:
  assumes "n < 16777216"
  shows "decode_sextets ((n div 262144) mod 64 # (n div 4096) mod 64 # (n div 64) mod 64 #
           n mod 64 # vs) =
         of_nat (n div 65536) # of_nat (n div 256) # of_nat n # decode_sextets vs"
  by (simp only: decode_sextets.simps Let_def digits4 [OF assms])

lemma decode_group2:
  assumes "n < 262144"
  shows "decode_sextets [(n div 4096) mod 64, (n div 64) mod 64, n mod 64] =
         [of_nat (n div 4 div 256), of_nat (n div 4)]"
  by (simp only: decode_sextets.simps Let_def digits3 [OF assms])

lemma decode_group1:
  assumes "n < 4096"
  shows "decode_sextets [(n div 64) mod 64, n mod 64] = [of_nat (n div 16)]"
  by (simp only: decode_sextets.simps Let_def digits2 [OF assms])

lemma decode_sextets_body: "decode_sextets (body_sextets bs) = bs"
proof (induction bs rule: body_sextets.induct)
  case (1 a b c rest)
  then show ?case
    by (simp only: body_sextets.simps Let_def decode_group3 [OF group3_bound] group3_bytes)
next
  case (2 a b)
  show ?case
    by (simp only: body_sextets.simps Let_def decode_group2 [OF group2_bound] group2_bytes)
next
  case (3 a)
  have "of_nat (unat a * 16 div 16) = a" by simp
  then show ?case
    by (simp only: body_sextets.simps Let_def decode_group1 [OF group1_bound])
next
  case 4
  show ?case by simp
qed

lemma atob_base64_encode: "atob (base64_encode bs) = Inr (map ucast bs)"
  by (simp add: atob_def base64_encode_no_whitespace remove_padding_base64_encode
      sextets_of_map_sextet_char body_sextets_mod body_sextets_length decode_sextets_body)

lemma ucast_byte_code_unit: "(ucast (ucast (b :: byte) :: code_unit) :: byte) = b"
  by (simp add: ucast_up_ucast_id is_up)

lemma unat_code_unit_of_byte: "unat (ucast (b :: byte) :: code_unit) = unat b"
  using unat_byte_less [of b] by (simp add: unsigned_ucast_eq take_bit_nat_eq_self)

lemma code_unit_of_byte_le: "\<not> 255 < (ucast (b :: byte) :: code_unit)"
  using unat_byte_less [of b] by (simp add: word_less_nat_alt unat_code_unit_of_byte)

lemma btoa_bytes: "btoa (map ucast (bs :: byte list)) = Inr (base64_encode bs)"
  by (simp add: btoa_def list_ex_iff code_unit_of_byte_le ucast_byte_code_unit comp_def)

lemma encode_total: "encode bytes = Inr (base64_encode bytes)"
  by (simp add: encode_def btoa_bytes)

lemma decode_base64_encode: "decode (base64_encode bs) = Inr bs"
  by (simp add: decode_def atob_base64_encode base64_encode_Nil ucast_byte_code_unit comp_def)

section \<open>Properties of the chunk reassembler\<close>

lemma copy_arrays_concat:
  "offset + length (concat arrs) \<le> length result \<Longrightarrow>
   copy_arrays result offset arrs =
     Inr (take offset result @ concat arrs @ drop (offset + length (concat arrs)) result)"
proof (induction arrs arbitrary: result offset)
  case Nil
  show ?case by simp
next
  case (Cons arr arrs)
  let ?r = "take offset result @ arr @ drop (offset + length arr) result"
  from Cons.prems have fits: "offset + length arr \<le> length result" by simp
  then have step: "typed_set result arr offset = Inr ?r"
    by (simp add: typed_set_def)
  have len: "length ?r = length result" using fits by simp
  have "copy_arrays ?r (offset + length arr) arrs =
          Inr (take (offset + length arr) ?r @ concat arrs @
               drop (offset + length arr + length (concat arrs)) ?r)"
    using Cons.prems by (intro Cons.IH) (simp add: len add.assoc)
  moreover have "take (offset + length arr) ?r = take offset result @ arr"
    using fits by simp
  moreover have "drop (offset + length arr + length (concat arrs)) ?r =
                 drop (offset + length (concat (arr # arrs))) result"
    using fits by (simp add: add.assoc add.commute add.left_commute)
  ultimately show ?case by (simp add: step)
qed

lemma total_length_foldl:
  "foldl (\<lambda>acc curr. acc + length curr) a arrs = a + length (concat arrs)"
  by (induction arrs arbitrary: a) simp_all

lemma combineBase64Chunks_eq:
  "combineBase64Chunks chunks = Inr (base64_encode (concat (map chunk_bytes chunks)))"
proof (cases "chunks = []")
  case True
  then show ?thesis by (simp add: combineBase64Chunks_def)
next
  case False
  let ?arrs = "map chunk_bytes chunks"
  have "copy_arrays (replicate (length (concat ?arrs)) 0) 0 ?arrs = Inr (concat ?arrs)"
    by (subst copy_arrays_concat) simp_all
  with False show ?thesis
    by (simp add: combineBase64Chunks_def total_length_foldl btoa_bytes)
qed

lemma chunk_bytes_encode: "encode b = Inr c \<Longrightarrow> chunk_bytes c = b"
  by (auto simp add: encode_total chunk_bytes_def atob_base64_encode ucast_byte_code_unit comp_def)

lemma chunk_bytes_encoded:
  "list_all2 (\<lambda>b c. encode b = Inr c) bs chunks \<Longrightarrow> map chunk_bytes chunks = bs"
  by (induction rule: list_all2_induct) (simp_all add: chunk_bytes_encode)

section \<open>Properties of the WAV encoder\<close>

lemma update_after_prefix:
  "length H = offset \<Longrightarrow> 1 \<le> m \<Longrightarrow>
   (H @ replicate m (0 :: byte))[offset := v] = (H @ [v]) @ replicate (m - 1) 0"
  by (cases m) auto

lemma setUint8_after_prefix:
  "length H = offset \<Longrightarrow> 1 \<le> m \<Longrightarrow>
   setUint8 (H @ replicate m 0) offset v = Inr ((H @ [v]) @ replicate (m - 1) 0)"
  by (simp add: setUint8_def update_after_prefix)

lemma setUint16_after_prefix:
  assumes "length H = offset" "2 \<le> m"
  shows "setUint16 (H @ replicate m 0) offset v = Inr ((H @ u16le v) @ replicate (m - 2) 0)"
proof -
  have "(H @ replicate m 0)[offset := ucast v] = (H @ [ucast v]) @ replicate (m - 1) 0"
    using assms by (intro update_after_prefix) simp_all
  moreover have "((H @ [ucast v]) @ replicate (m - 1) 0)[offset + 1 := ucast (drop_bit 8 v)] =
      ((H @ [ucast v]) @ [ucast (drop_bit 8 v)]) @ replicate (m - 1 - 1) 0"
    using assms by (intro update_after_prefix) simp_all
  ultimately show ?thesis
    using assms by (simp add: setUint16_def u16le_def)
qed

lemma setUint32_after_prefix:
  assumes "length H = offset" "4 \<le> m"
  shows "setUint32 (H @ replicate m 0) offset v = Inr ((H @ u32le v) @ replicate (m - 4) 0)"
proof -
  let ?b0 = "ucast v :: byte" and ?b1 = "ucast (drop_bit 8 v) :: byte"
  let ?b2 = "ucast (drop_bit 16 v) :: byte" and ?b3 = "ucast (drop_bit 24 v) :: byte"
  have "(H @ replicate m 0)[offset := ?b0] = (H @ [?b0]) @ replicate (m - 1) 0"
    using assms by (intro update_after_prefix) simp_all
  moreover have "((H @ [?b0]) @ replicate (m - 1) 0)[offset + 1 := ?b1] =
      ((H @ [?b0]) @ [?b1]) @ replicate (m - 1 - 1) 0"
    using assms by (intro update_after_prefix) simp_all
  moreover have "(((H @ [?b0]) @ [?b1]) @ replicate (m - 1 - 1) 0)[offset + 2 := ?b2] =
      (((H @ [?b0]) @ [?b1]) @ [?b2]) @ replicate (m - 1 - 1 - 1) 0"
    using assms by (intro update_after_prefix) simp_all
  moreover have "((((H @ [?b0]) @ [?b1]) @ [?b2]) @ replicate (m - 1 - 1 - 1) 0)[offset + 3 := ?b3] =
      ((((H @ [?b0]) @ [?b1]) @ [?b2]) @ [?b3]) @ replicate (m - 1 - 1 - 1 - 1) 0"
    using assms by (intro update_after_prefix) simp_all
  ultimately show ?thesis
    using assms by (simp add: setUint32_def u32le_def)
qed

lemma writeString_after_prefix:
  "length H = offset \<Longrightarrow> length cs \<le> m \<Longrightarrow>
   writeString (H @ replicate m 0) offset cs =
     Inr ((H @ map ucast cs) @ replicate (m - length cs) 0)"
proof (induction cs arbitrary: H offset m)
  case Nil
  show ?case by simp
next
  case (Cons c cs)
  have "writeString ((H @ [ucast c]) @ replicate (m - 1) 0) (offset + 1) cs =
          Inr (((H @ [ucast c]) @ map ucast cs) @ replicate (m - 1 - length cs) 0)"
    using Cons.prems by (intro Cons.IH) simp_all
  then show ?case
    using Cons.prems by (simp add: setUint8_after_prefix)
qed

lemma typed_set_after_prefix:
  "length H = offset \<Longrightarrow>
   typed_set (H @ replicate (length source) 0) source offset = Inr (H @ source)"
  by (simp add: typed_set_def)

lemma ucast_of_nat_down: "(ucast (of_nat n :: 16 word) :: byte) = of_nat n"
  by (rule bit_word_eqI) (auto simp add: bit_simps) 

lemma ucast_of_char: "(ucast (of_char c :: code_unit) :: byte) = of_char c"
  using ucast_of_nat_down [of "of_char c"] by (simp only: of_nat_of_char)

lemma ascii_str: "map ucast (str s) = ascii s"
  by (simp add: str_def ascii_def ucast_of_char)

lemma new_buffer: "replicate m 0 = zero_padded [] m"
  by (simp add: zero_padded_def)

lemma writeString_padded:
  "length H = offset \<Longrightarrow> length s \<le> m \<Longrightarrow>
   writeString (zero_padded H m) offset (str s) = Inr (zero_padded (H @ ascii s) (m - length s))"
  unfolding zero_padded_def
  using writeString_after_prefix [of H offset "str s" m] by (simp add: ascii_str) (simp add: str_def)

lemma setUint16_padded:
  "length H = offset \<Longrightarrow> 2 \<le> m \<Longrightarrow>
   setUint16 (zero_padded H m) offset v = Inr (zero_padded (H @ u16le v) (m - 2))"
  unfolding zero_padded_def by (rule setUint16_after_prefix)

lemma setUint32_padded:
  "length H = offset \<Longrightarrow> 4 \<le> m \<Longrightarrow>
   setUint32 (zero_padded H m) offset v = Inr (zero_padded (H @ u32le v) (m - 4))"
  unfolding zero_padded_def by (rule setUint32_after_prefix)

lemma typed_set_padded:
  "length H = offset \<Longrightarrow> m = length source \<Longrightarrow>
   typed_set (zero_padded H m) source offset = Inr (H @ source)"
  unfolding zero_padded_def by (simp add: typed_set_after_prefix)

lemma length_u16le: "length (u16le v) = 2"
  by (simp add: u16le_def)

lemma length_u32le: "length (u32le v) = 4"
  by (simp add: u32le_def)

lemma length_ascii: "length (ascii s) = length s"
  by (simp add: ascii_def)

lemma and_then_Inr: "and_then (Inr x) f = f x"
  by (simp add: and_then_def)

lemma unat_low_byte: "unat (ucast (w :: 'a :: len word) :: byte) = unat w mod 256"
  by (simp add: unsigned_ucast_eq take_bit_eq_mod unat_of_nat flip: take_bit_eq_mod) (simp add: take_bit_eq_mod)

lemma bytes2:
  fixes n :: nat
  assumes "n < 65536"
  shows "n mod 256 + 256 * (n div 256 mod 256) = n"
proof -
  have "n div 256 < 256" using assms by simp
  then show ?thesis by simp
qed

lemma bytes4:
  fixes n :: nat
  assumes "n < 4294967296"
  shows "n mod 256 + 256 * (n div 256 mod 256 + 256 * (n div 65536 mod 256 +
           256 * (n div 16777216 mod 256))) = n"
proof -
  define q1 where "q1 = n div 256"
  define q2 where "q2 = q1 div 256"
  have e1: "n div 65536 = q2" by (simp add: q1_def q2_def div_mult2_eq)
  have e2: "n div 16777216 = q2 div 256" by (simp add: q1_def q2_def div_mult2_eq)
  have "q2 div 256 < 256" using assms unfolding e2 [symmetric] by simp
  then have "q2 mod 256 + 256 * (q2 div 256 mod 256) = q2" by simp
  moreover have "q1 mod 256 + 256 * q2 = q1" by (simp add: q2_def)
  moreover have "n mod 256 + 256 * q1 = n" by (simp add: q1_def)
  ultimately show ?thesis unfolding e1 e2 q1_def [symmetric] by simp
qed

lemma unat_drop_byte:
  "unat (ucast (drop_bit k (w :: 'a :: len word)) :: byte) = unat w div 2 ^ k mod 256"
  by (simp only: unat_low_byte unat_drop_bit_eq) (simp only: drop_bit_eq_div)

lemma read_le_u16le: "read_le (u16le w) = unat w"
proof -
  have d8: "unat (ucast (drop_bit 8 w) :: byte) = unat w div 256 mod 256"
    using unat_drop_byte [of 8 w] by simp
  have "read_le (u16le w) =
      unat (ucast w :: byte) + 256 * (unat (ucast (drop_bit 8 w) :: byte) + 256 * 0)"
    by (simp only: read_le_def u16le_def foldr.simps o_apply id_apply)
  also have "\<dots> = unat (ucast w :: byte) + 256 * (unat w div 256 mod 256)"
    by (simp only: d8 mult_0_right add_0_right)
  also have "\<dots> = unat w mod 256 + 256 * (unat w div 256 mod 256)"
    by (simp only: unat_low_byte)
  also have "\<dots> = unat w"
    using unsigned_less [of w] by (intro bytes2) simp
  finally show ?thesis .
qed

lemma read_le_u32le: "read_le (u32le w) = unat w"
proof -
  have d8: "unat (ucast (drop_bit 8 w) :: byte) = unat w div 256 mod 256"
    using unat_drop_byte [of 8 w] by simp
  have d16: "unat (ucast (drop_bit 16 w) :: byte) = unat w div 65536 mod 256"
    using unat_drop_byte [of 16 w] by simp
  have d24: "unat (ucast (drop_bit 24 w) :: byte) = unat w div 16777216 mod 256"
    using unat_drop_byte [of 24 w] by simp
  have "read_le (u32le w) =
      unat (ucast w :: byte) + 256 * (unat (ucast (drop_bit 8 w) :: byte) +
        256 * (unat (ucast (drop_bit 16 w) :: byte) +
          256 * (unat (ucast (drop_bit 24 w) :: byte) + 256 * 0)))"
    by (simp only: read_le_def u32le_def foldr.simps o_apply id_apply)
  also have "\<dots> = unat (ucast w :: byte) + 256 * (unat w div 256 mod 256 +
        256 * (unat w div 65536 mod 256 + 256 * (unat w div 16777216 mod 256)))"
    by (simp only: d8 d16 d24 mult_0_right add_0_right)
  also have "\<dots> = unat w mod 256 + 256 * (unat w div 256 mod 256 +
        256 * (unat w div 65536 mod 256 + 256 * (unat w div 16777216 mod 256)))"
    by (simp only: unat_low_byte)
  also have "\<dots> = unat w"
    using unsigned_less [of w] by (intro bytes4) simp
  finally show ?thesis .
qed

lemma read_le_sample_rate:
  "0 \<le> sampleRate \<Longrightarrow> sampleRate < 2 ^ 32 \<Longrightarrow> int (read_le (u32le (of_int sampleRate))) = sampleRate"
  by (simp add: read_le_u32le unat_eq_nat_uint uint_word_of_int take_bit_int_eq_self)

section \<open>Properties of the PCM decoder\<close>

lemma length_store_at: "length (store_at cd i v) = length cd"
  by (simp add: store_at_def)

lemma nth_store_at: "j < length cd \<Longrightarrow> store_at cd i v ! j = (if j = i then v else cd ! j)"
  by (simp add: store_at_def nth_list_update)

lemma store_loop_length:
  "length (foldl (\<lambda>cd i. store_at cd i (f i)) cd [0 ..< k]) = length cd"
  by (induction k) (simp_all add: length_store_at)

lemma store_loop_nth:
  "j < length cd \<Longrightarrow>
   foldl (\<lambda>cd i. store_at cd i (f i)) cd [0 ..< k] ! j = (if j < k then f j else cd ! j)"
  by (induction k) (auto simp add: nth_store_at store_loop_length less_Suc_eq)

lemma store_loop_replicate:
  assumes "L \<le> k"
  shows "foldl (\<lambda>cd i. store_at cd i (f i)) (replicate L z) [0 ..< k] = map f [0 ..< L]"
  using assms by (intro nth_equalityI) (simp_all add: store_loop_length store_loop_nth)

lemma channel_loop_length:
  "length (foldl (\<lambda>chs c. chs[c := g c (chs ! c)]) chs [0 ..< k]) = length chs"
  by (induction k) simp_all

lemma channel_loop_nth:
  "j < length chs \<Longrightarrow>
   foldl (\<lambda>chs c. chs[c := g c (chs ! c)]) chs [0 ..< k] ! j =
     (if j < k then g j (chs ! j) else chs ! j)"
  by (induction k) (auto simp add: channel_loop_length nth_list_update less_Suc_eq)

lemma channel_loop_replicate:
  "foldl (\<lambda>chs c. chs[c := g c (chs ! c)]) (replicate n cd) [0 ..< n] = map (\<lambda>c. g c cd) [0 ..< n]"
  by (intro nth_equalityI) (simp_all add: channel_loop_length channel_loop_nth)

lemma Int16Array_aligned:
  "even offset \<Longrightarrow>
   Int16Array bytes offset (length bytes div 2) =
     Inr (map (\<lambda>k. le16 (bytes ! (2 * k)) (bytes ! (2 * k + 1))) [0 ..< length bytes div 2])"
  by (simp add: Int16Array_def not_less)

lemma Int16Array_unaligned: "odd offset \<Longrightarrow> Int16Array bytes offset count = Inl RangeError"
  by (simp add: Int16Array_def)

lemma frame_index_in_range:
  fixes n nc :: nat
  assumes "i < n div nc" "c < nc"
  shows "i * nc + c < n"
proof -
  have "i * nc + c < Suc i * nc" using assms(2) by simp
  also have "\<dots> \<le> (n div nc) * nc" using assms(1) by (intro mult_le_mono1) simp
  also have "\<dots> \<le> n" by simp
  finally show ?thesis .
qed

lemma js_trunc_quotient: "js_trunc (of_nat n / of_nat nc) = int (n div nc)"
proof -
  have "\<not> (of_nat n / of_nat nc :: rat) < 0" by (simp add: not_less)
  then show ?thesis by (simp only: js_trunc_def if_False floor_divide_of_nat_eq)
qed

lemma ToUint32_quotient:
  "n div nc < 2 ^ 32 \<Longrightarrow> ToUint32 (of_nat n / of_nat nc) = n div nc"
  by (simp add: ToUint32_def js_trunc_quotient nat_mod_distrib flip: of_nat_power of_nat_mod)

lemma frames_le_iterations: "n div nc \<le> nat \<lceil>(of_nat n / of_nat nc :: rat)\<rceil>"
proof -
  have "int (n div nc) = \<lfloor>(of_nat n / of_nat nc :: rat)\<rfloor>"
    by (simp add: floor_divide_of_nat_eq)
  also have "\<dots> \<le> \<lceil>(of_nat n / of_nat nc :: rat)\<rceil>"
    by (rule floor_le_ceiling)
  finally show ?thesis by simp
qed

lemma fill_channel_frames:
  assumes "c < nc"
  shows "fill_channel d nc (of_nat (length d) / of_nat nc) c (replicate (length d div nc) z) =
         map (\<lambda>i. Num (of_int (sint (d ! (i * nc + c))) / 32768)) [0 ..< length d div nc]"
proof -
  have "fill_channel d nc (of_nat (length d) / of_nat nc) c (replicate (length d div nc) z) =
        map (\<lambda>i. sample_value d (i * nc + c)) [0 ..< length d div nc]"
    unfolding fill_channel_def by (rule store_loop_replicate) (rule frames_le_iterations)
  also have "\<dots> = map (\<lambda>i. Num (of_int (sint (d ! (i * nc + c))) / 32768)) [0 ..< length d div nc]"
    using assms by (simp add: sample_value_def frame_index_in_range)
  finally show ?thesis .
qed

lemma fill_buffer_frames:
  "fill_buffer d nc (of_nat (length d) / of_nat nc)
     \<lparr>numberOfChannels = nc, bufferSampleRate = rate,
      channels = replicate nc (replicate (length d div nc) (Num 0))\<rparr> =
   \<lparr>numberOfChannels = nc, bufferSampleRate = rate,
    channels = map (\<lambda>c. map (\<lambda>i. Num (of_int (sint (d ! (i * nc + c))) / 32768))
                        [0 ..< length d div nc]) [0 ..< nc]\<rparr>"
  by (simp add: fill_buffer_def channel_loop_replicate fill_channel_frames)

lemma decodeAudioData_silent_frame:
  assumes "1 \<le> numChannels" "numChannels \<le> maxChannels ctx"
    and "minSampleRate ctx \<le> rate" "rate \<le> maxSampleRate ctx"
    and "data = None \<or> data = Some \<lparr>elements = [], byteOffset = offset\<rparr> \<or>
         data = Some \<lparr>elements = [b], byteOffset = offset\<rparr> \<and> even offset"
  shows "decodeAudioData data ctx rate numChannels =
     Inr \<lparr>numberOfChannels = numChannels, bufferSampleRate = rate,
          channels = replicate numChannels [Num 0]\<rparr>"
proof -
  have "ToUint32 1 = 1" by (simp add: ToUint32_def js_trunc_def)
  then have "createBuffer ctx numChannels 1 rate =
     Inr \<lparr>numberOfChannels = numChannels, bufferSampleRate = rate,
          channels = replicate numChannels [Num 0]\<rparr>"
    using assms(1-4) by (simp add: createBuffer_def)
  then show ?thesis
    using assms(1,5) by (auto simp add: decodeAudioData_def Int16Array_def)
qed

lemma decodeAudioData_incomplete_frame:
  assumes "0 < length (elements data) div 2" "length (elements data) div 2 < numChannels"
    and "even (byteOffset data)"
  shows "decodeAudioData (Some data) ctx rate numChannels = Inl NotSupportedError"
proof -
  let ?fc = "of_nat (length (elements data) div 2) / of_nat numChannels :: rat"
  have "length (elements data) div 2 div numChannels = 0" using assms(2) by simp
  then have "ToUint32 ?fc = 0"
    by (simp add: ToUint32_def js_trunc_quotient)
  then have "createBuffer ctx numChannels ?fc rate = Inl NotSupportedError"
    by (simp add: createBuffer_def)
  moreover have "\<not> ?fc \<le> 0" using assms by (simp add: not_le)
  moreover have "length (elements data) \<noteq> 0" "numChannels \<noteq> 0" using assms by auto
  ultimately show ?thesis
    using assms(3) by (simp add: decodeAudioData_def Let_def Int16Array_aligned)
qed

lemma decodeAudioData_unaligned:
  assumes "elements data \<noteq> []" "odd (byteOffset data)"
  shows "decodeAudioData (Some data) ctx rate numChannels = Inl RangeError"
  using assms by (simp add: decodeAudioData_def Let_def Int16Array_unaligned)

section \<open>Properties of the transcoder\<close>

lemma sint_in_range:
  assumes "- 32768 \<le> k" "k \<le> 32767"
  shows "sint (of_int k :: 16 word) = k"
  using assms by (simp add: signed_of_int signed_take_bit_int_eq_self)

lemma clamp_neg_bounds:
  fixes v :: rat
  assumes "- 1 \<le> v" "v < 0"
  shows "- 32768 \<le> \<lceil>v * 32768\<rceil>" "\<lceil>v * 32768\<rceil> \<le> 0"
proof -
  have "- 32768 \<le> v * 32768" using assms(1) by simp
  then show "- 32768 \<le> \<lceil>v * 32768\<rceil>" by (simp add: le_ceiling_iff)
  have "v * 32768 \<le> 0" using assms(2) by simp
  then show "\<lceil>v * 32768\<rceil> \<le> 0" by (simp add: ceiling_le_iff)
qed

lemma clamp_pos_bounds:
  fixes v :: rat
  assumes "0 \<le> v" "v \<le> 1"
  shows "0 \<le> \<lfloor>v * 32767\<rfloor>" "\<lfloor>v * 32767\<rfloor> \<le> 32767"
proof -
  show "0 \<le> \<lfloor>v * 32767\<rfloor>" using assms(1) by simp
  have "v * 32767 \<le> 32767" using assms(2) by simp
  then show "\<lfloor>v * 32767\<rfloor> \<le> 32767" by (simp add: floor_le_iff)
qed

lemma quantize_NaN: "quantize NaN = 0"
  by (simp add: quantize_def)

lemma length_int16_bytes: "length (int16_bytes ws) = 2 * length ws"
  by (induction ws) (simp_all add: int16_bytes_def u16le_def)

lemma floor_rat_numeral: "\<lfloor>(numeral a / numeral b :: rat)\<rfloor> = numeral a div numeral b"
  by (metis floor_divide_of_int_eq of_int_numeral)

lemma ceiling_rat_minus_numeral:
  "\<lceil>- (numeral a / numeral b :: rat)\<rceil> = - (numeral a div numeral b)"
  by (simp add: ceiling_def floor_rat_numeral)

text \<open>The double-precision arithmetic of the frame count.\<close>

lemma bit_length_bounds:
  "0 < n \<Longrightarrow> 2 ^ (bit_length n - 1) \<le> n \<and> n < 2 ^ bit_length n"
proof (induction n rule: bit_length.induct)
  case (1 n)
  show ?case
  proof (cases "n div 2 = 0")
    case True
    with 1(2) have "n = 1" by (auto simp add: div_eq_0_iff)
    then show ?thesis by (simp add: bit_length.simps)
  next
    case False
    define m where "m = n div 2"
    have m: "0 < m" using False by (simp add: m_def)
    have bl: "bit_length n = Suc (bit_length m)"
      using 1(2) by (subst bit_length.simps) (simp add: m_def)
    have IH: "2 ^ (bit_length m - 1) \<le> m \<and> m < 2 ^ bit_length m"
      using 1(1) 1(2) m by (simp add: m_def)
    have pos: "0 < bit_length m"
      using m by (subst bit_length.simps) simp
    then have "(2::nat) ^ bit_length m = 2 * 2 ^ (bit_length m - 1)"
      by (cases "bit_length m") simp_all
    moreover have "2 * m \<le> n" "n < 2 * m + 2" by (simp_all add: m_def)
    ultimately show ?thesis using IH by (simp add: bl)
  qed
qed

lemma round_half_even_near: "\<bar>of_int (round_half_even m) - m\<bar> \<le> 1 / 2"
proof -
  define f where "f = \<lfloor>m\<rfloor>"
  have b: "of_int f \<le> m" "m < of_int f + 1"
    unfolding f_def by linarith+
  have "round_half_even m =
      (if m - of_int f < 1 / 2 then f else if 1 / 2 < m - of_int f then f + 1
       else if even f then f else f + 1)"
    by (simp add: round_half_even_def Let_def f_def)
  then show ?thesis
    using b by (auto simp add: abs_if split: if_splits)
qed

lemma pow2_pos: "0 < pow2 e"
  by (simp add: pow2_def)

lemma rat_pow2_le: "2 ^ k \<le> n \<Longrightarrow> (2::rat) ^ k \<le> of_nat n"
  using of_nat_mono [of "2 ^ k" n, where ?'a = rat] by simp

lemma rat_le_pow2: "n + 1 \<le> 2 ^ k \<Longrightarrow> of_nat n + 1 \<le> (2::rat) ^ k"
  using of_nat_mono [of "n + 1" "2 ^ k", where ?'a = rat] by simp

lemma binary_exponent_bounds:
  assumes "0 < x"
  shows "pow2 (binary_exponent x) \<le> x \<and> x < pow2 (binary_exponent x + 1)"
proof (cases "1 \<le> x")
  case True
  define n where "n = nat \<lfloor>x\<rfloor>"
  have n: "0 < n" "of_nat n \<le> x" "x < of_nat n + 1"
    using True unfolding n_def by (simp_all add: le_floor_iff) linarith+
  from bit_length_bounds [OF n(1)] have "2 ^ (bit_length n - 1) \<le> n" "n + 1 \<le> 2 ^ bit_length n"
    by simp_all
  then have r: "(2::rat) ^ (bit_length n - 1) \<le> of_nat n" "of_nat n + 1 \<le> (2::rat) ^ bit_length n"
    by (simp_all only: rat_pow2_le rat_le_pow2)
  have pos: "0 < bit_length n" using n(1) by (subst bit_length.simps) simp
  have e: "binary_exponent x = int (bit_length n) - 1"
    using True by (simp add: binary_exponent_def n_def)
  have p1: "pow2 (int (bit_length n) - 1) = 2 ^ (bit_length n - 1)"
    using pos by (simp add: pow2_def nat_diff_distrib)
  have p2: "pow2 (int (bit_length n) - 1 + 1) = 2 ^ bit_length n"
    by (simp add: pow2_def)
  show ?thesis
    unfolding e p1 p2 using r n(2,3) by linarith
next
  case False
  with assms have x: "0 < x" "x < 1" by simp_all
  define n where "n = nat (\<lceil>1 / x\<rceil> - 1)"
  have "1 < 1 / x" using x by simp
  then have c: "2 \<le> \<lceil>1 / x\<rceil>" by linarith
  have n: "0 < n" "of_nat n < 1 / x" "1 / x \<le> of_nat n + 1"
  proof -
    show "0 < n" using c by (simp add: n_def)
    have "0 \<le> \<lceil>1 / x\<rceil> - 1" using c by linarith
    then have "of_nat n = (of_int (\<lceil>1 / x\<rceil> - 1) :: rat)"
      unfolding n_def by (rule of_nat_nat)
    then show "of_nat n < 1 / x" "1 / x \<le> of_nat n + 1" by linarith+
  qed
  from bit_length_bounds [OF n(1)] have "2 ^ (bit_length n - 1) \<le> n" "n + 1 \<le> 2 ^ bit_length n"
    by simp_all
  then have r: "(2::rat) ^ (bit_length n - 1) \<le> of_nat n" "of_nat n + 1 \<le> (2::rat) ^ bit_length n"
    by (simp_all only: rat_pow2_le rat_le_pow2)
  have pos: "0 < bit_length n" using n(1) by (subst bit_length.simps) simp
  have e: "binary_exponent x = - int (bit_length n)"
    using False by (simp add: binary_exponent_def n_def)
  have p1: "pow2 (- int (bit_length n)) = 1 / 2 ^ bit_length n"
    using pos by (simp add: pow2_def)
  have p2: "pow2 (- int (bit_length n) + 1) = 1 / 2 ^ (bit_length n - 1)"
  proof (cases "bit_length n = 1")
    case True
    then show ?thesis by (simp add: pow2_def)
  next
    case False
    with pos have "1 < bit_length n" by simp
    then show ?thesis by (simp add: pow2_def nat_diff_distrib)
  qed
  have "1 / x \<le> 2 ^ bit_length n" using r(2) n(3) by linarith
  then have lo: "1 / 2 ^ bit_length n \<le> x"
    using x(1) by (simp add: field_simps)
  have "(2::rat) ^ (bit_length n - 1) < 1 / x" using r(1) n(2) by linarith
  then have hi: "x < 1 / 2 ^ (bit_length n - 1)"
    using x(1) by (simp add: field_simps)
  show ?thesis
    unfolding e p1 p2 using lo hi by simp
qed

lemma double_of_near:
  assumes "0 < x" "double_of x = Some y"
  defines "q \<equiv> pow2 (max (binary_exponent x) (- 1022) - 52)"
  shows "\<bar>y - x\<bar> \<le> q / 2 \<and> (\<exists>k. y = of_int k * q)"
proof -
  have q: "0 < q" unfolding q_def by (rule pow2_pos)
  define k where "k = round_half_even (x / q)"
  have y: "y = of_int k * q"
    using assms(1,2) by (simp add: double_of_def Let_def q_def k_def split: if_splits)
  have "\<bar>of_int k - x / q\<bar> \<le> 1 / 2"
    unfolding k_def by (rule round_half_even_near)
  then have "\<bar>of_int k - x / q\<bar> * q \<le> 1 / 2 * q"
    using q by (intro mult_right_mono) simp_all
  moreover have "\<bar>of_int k - x / q\<bar> * q = \<bar>y - x\<bar>"
  proof -
    have "\<bar>of_int k - x / q\<bar> * q = \<bar>(of_int k - x / q) * q\<bar>"
      using q by (simp add: abs_mult)
    also have "(of_int k - x / q) * q = y - x"
      using q by (simp add: y left_diff_distrib)
    finally show ?thesis .
  qed
  ultimately show ?thesis using y by auto
qed

lemmas double_eval =
  double_of_def binary_exponent_def bit_length.simps pow2_def round_half_even_def
  floor_rat_numeral ceiling_rat_minus_numeral

lemma ceiling_rat_numeral: "\<lceil>(numeral a / numeral b :: rat)\<rceil> = - (- numeral a div numeral b)"
proof -
  have "\<lceil>(numeral a / numeral b :: rat)\<rceil> =
      - \<lfloor>of_int (- numeral a) / (of_int (numeral b) :: rat)\<rfloor>"
    by (simp add: ceiling_def)
  also have "\<dots> = - (- numeral a div numeral b)"
    by (simp only: floor_divide_of_int_eq)
  finally show ?thesis .
qed

lemma double_of_two: "double_of 2 = Some 2"
  by (simp add: double_eval)

lemma double_of_32000: "double_of 32000 = Some 32000"
  by (simp add: double_eval)

lemma double_of_2007_16000: "double_of (2007 / 16000) = Some (4519362226066293 / 36028797018963968)"
  by (simp add: double_eval ceiling_rat_numeral)

lemma double_of_2007_product: "double_of (4519362226066293 / 36028797018963968 * 16000) = Some (8826879347785729 / 4398046511104)"
  by (simp add: double_eval ceiling_rat_numeral)

lemma ToUint32_of_int: "0 \<le> k \<Longrightarrow> k < 2 ^ 32 \<Longrightarrow> ToUint32 (of_int k) = nat k"
  by (simp add: ToUint32_def js_trunc_def)

lemma OfflineAudioContext_length:
  assumes "0 < p" "\<lceil>p\<rceil> < 2 ^ 32"
  shows "OfflineAudioContext (Suc n) (Math_ceil (Some p)) 16000 =
     Inr \<lparr>renderChannels = Suc n, renderLength = nat \<lceil>p\<rceil>, renderSampleRate = 16000\<rparr>"
proof -
  have pos: "0 < \<lceil>p\<rceil>" using assms(1) by simp
  then have "ToUint32 (of_int \<lceil>p\<rceil>) = nat \<lceil>p\<rceil>"
    using assms(2) by (intro ToUint32_of_int) simp_all
  then show ?thesis
    using pos by (simp add: OfflineAudioContext_def Math_ceil_def)
qed

lemma resampledBuffer_frames:
  assumes "duration audioBuffer = Some d" "double_of (d * 16000) = Some p"
    and "0 < p" "\<lceil>p\<rceil> < 2 ^ 32"
  shows "resampledBuffer audioBuffer rendered =
     Inr \<lparr>numberOfChannels = 1, bufferSampleRate = 16000,
          channels = [map (rendered 0) [0 ..< nat \<lceil>p\<rceil>]]\<rparr>"
  using assms(1,2)
  by (simp add: resampledBuffer_def js_times_def OfflineAudioContext_length [OF assms(3,4)]
      startRendering_def)

lemma map_silence: "map (silence c) [0 ..< n] = replicate n (Num 0)"
  by (induction n) (simp_all add: silence_def replicate_append_same)

section \<open>Properties of the streaming exchange\<close>

lemma add_part_unchanged:
  "isResolved (add_part s p) = isResolved s"
  "settled (add_part s p) = settled s"
  "closeRequests (add_part s p) = closeRequests s"
  by (simp_all add: add_part_def Let_def)

lemma add_part_audio:
  "hasReceivedAudio s = (accumulatedAudioChunks s \<noteq> []) \<Longrightarrow>
   hasReceivedAudio (add_part s p) = (accumulatedAudioChunks (add_part s p) \<noteq> [])"
  by (simp add: add_part_def Let_def)

lemma add_parts_unchanged:
  "isResolved (foldl add_part s ps) = isResolved s"
  "settled (foldl add_part s ps) = settled s"
  "closeRequests (foldl add_part s ps) = closeRequests s"
  by (induction ps arbitrary: s) (simp_all add: add_part_unchanged)

lemma add_parts_audio:
  "hasReceivedAudio s = (accumulatedAudioChunks s \<noteq> []) \<Longrightarrow>
   hasReceivedAudio (foldl add_part s ps) = (accumulatedAudioChunks (foldl add_part s ps) \<noteq> [])"
  by (induction ps arbitrary: s) (simp_all add: add_part_audio)

lemma add_parts_inv: "pending_inv s \<Longrightarrow> pending_inv (foldl add_part s ps)"
  by (simp add: pending_inv_def add_parts_unchanged add_parts_audio)

lemma onmessage_inv: "pending_inv s \<Longrightarrow> pending_inv (onmessage s m)"
  using add_parts_inv [of s "parts m"]
  by (simp add: onmessage_def Let_def pending_inv_def combineBase64Chunks_eq request_close_def
      reject_with_def)

lemma onerror_inv: "pending_inv s \<Longrightarrow> pending_inv (onerror s err)"
  by (simp add: onerror_def pending_inv_def reject_with_def)

lemma onclose_inv: "pending_inv s \<Longrightarrow> pending_inv (onclose s)"
  by (simp add: onclose_def pending_inv_def reject_with_def resolve_combined_def
      combineBase64Chunks_eq)

lemma ontimeout_inv: "pending_inv s \<Longrightarrow> pending_inv (ontimeout s)"
  by (simp add: ontimeout_def pending_inv_def reject_with_def request_close_def
      combineBase64Chunks_eq)

lemma handle_inv: "pending_inv s \<Longrightarrow> pending_inv (handle s e)"
  by (cases e) (simp_all add: onmessage_inv onerror_inv onclose_inv ontimeout_inv)

lemma run_inv: "pending_inv s \<Longrightarrow> pending_inv (foldl handle s events)"
  by (induction events arbitrary: s) (simp_all add: handle_inv)

lemma initial_inv: "pending_inv initial"
  by (simp add: pending_inv_def initial_def)

lemma generateSpeech_inv: "pending_inv (generateSpeech events)"
  unfolding generateSpeech_def by (rule run_inv) (rule initial_inv)

lemma handle_resolved:
  assumes "isResolved s"
  shows "isResolved (handle s e) \<and> settled (handle s e) = settled s"
proof (cases e)
  case (OnMessage m)
  then show ?thesis
    using assms by (simp add: onmessage_def Let_def add_parts_unchanged)
qed (use assms in \<open>simp_all add: onerror_def onclose_def ontimeout_def\<close>)

lemma run_resolved:
  "isResolved s \<Longrightarrow>
   isResolved (foldl handle s events) \<and> settled (foldl handle s events) = settled s"
  by (induction events arbitrary: s) (simp_all add: handle_resolved)

lemma handle_deciding:
  assumes "deciding e"
  shows "isResolved (handle s e)"
  using assms
  by (cases e)
     (simp_all add: onerror_def onclose_def ontimeout_def reject_with_def request_close_def
        resolve_combined_def combineBase64Chunks_eq)

lemma run_deciding:
  "list_ex deciding events \<Longrightarrow> isResolved (foldl handle s events)"
proof (induction events arbitrary: s)
  case Nil
  then show ?case by simp
next
  case (Cons e events)
  show ?case
  proof (cases "deciding e")
    case True
    then show ?thesis by (simp add: handle_deciding run_resolved)
  next
    case False
    with Cons show ?thesis by simp
  qed
qed

lemma str_append: "str a @ str b = str (a @ b)"
  by (simp add: str_def)

lemma trim_no: "trim (str ''no'') = str ''no''"
  by (simp add: trim_def str_def js_whitespace_def)

lemma trim_blank: "trim (str '' '') = []"
  by (simp add: trim_def str_def js_whitespace_def)

section \<open>Claims\<close>

text \<open>
  C1. For every byte sequence \<open>b\<close>, the empty one included, \<open>encode\<close> returns a string
  and \<open>decode\<close> of that string returns \<open>b\<close>: neither function throws, and
  \<open>decode(encode(b))\<close> is equal to \<open>b\<close>.
\<close>

theorem decode_encode: "\<exists>s. encode b = Inr s \<and> decode s = Inr b"
  by (simp add: encode_total decode_base64_encode)

text \<open>
  C2. \<open>combineBase64Chunks\<close> of the empty list returns the empty string; and for every
  list of byte sequences (empty sequences allowed), \<open>combineBase64Chunks\<close> of their
  \<open>encode\<close>d texts, in order, returns a base64 text that \<open>decode\<close> turns into the
  concatenation of the sequences in that order.
\<close>

theorem combineBase64Chunks_concat:
  "combineBase64Chunks [] = Inr [] \<and>
   (list_all2 (\<lambda>b chunk. encode b = Inr chunk) bs chunks \<longrightarrow>
      (\<exists>s. combineBase64Chunks chunks = Inr s \<and> decode s = Inr (concat bs)))"
  by (simp add: combineBase64Chunks_eq chunk_bytes_encoded decode_base64_encode)

theorem combineBase64Chunks_concat_witness:
  "\<exists>s. combineBase64Chunks [str ''TWE='', [], str ''bg==''] = Inr s \<and>
       decode s = Inr ([77, 97] @ [] @ [110])"
proof -
  have "base64_encode [77, 97] = str ''TWE=''" "base64_encode [110] = str ''bg==''"
    by (simp_all add: sextet_char_def base64_alphabet_def str_def pad_char_def)
  then have h: "list_all2 (\<lambda>b chunk. encode b = Inr chunk)
             [[77, 97], [], [110]] [str ''TWE='', [], str ''bg=='']"
    by (simp add: encode_total)
  from combineBase64Chunks_concat [of "[[77, 97], [], [110]]" "[str ''TWE='', [], str ''bg=='']"] h
  show ?thesis by simp
qed

text \<open>
  C3. For every byte sequence \<open>pcm\<close> and every (integer) sample rate, \<open>pcmToWav\<close>
  returns without an exception a blob of exactly \<open>44 + length pcm\<close> bytes: the 44-byte
  header \<open>RIFF\<close>, u32 \<open>36 + dataLength\<close>, \<open>WAVE\<close>, \<open>fmt \<close>, u32 16, u16 1, u16 1,
  u32 \<open>sampleRate\<close>, u32 \<open>sampleRate * 2\<close>, u16 2, u16 16, \<open>data\<close>, u32 \<open>dataLength\<close>, all
  little-endian, followed by the PCM bytes unchanged. A u32 field holds its value as
  \<open>setUint32\<close> stores it, that is modulo \<open>2 ^ 32\<close>; by \<open>read_le_u32le\<close> and
  \<open>read_le_u16le\<close> a reader gets back the value stored.
\<close>

theorem pcmToWav_layout:
  "\<exists>header.
     pcmToWav pcm sampleRate = Inr (header @ pcm) \<and>
     length header = 44 \<and>
     header =
       ascii ''RIFF'' @ u32le (of_nat (36 + length pcm)) @ ascii ''WAVE'' @
       ascii ''fmt '' @ u32le 16 @ u16le 1 @ u16le 1 @
       u32le (of_int sampleRate) @ u32le (of_int (sampleRate * 2)) @ u16le 2 @ u16le 16 @
       ascii ''data'' @ u32le (of_nat (length pcm))"
  unfolding pcmToWav_def new_buffer
  by (simp add: writeString_padded setUint16_padded setUint32_padded typed_set_padded
      length_u16le length_u32le length_ascii and_then_Inr)

text \<open>
  C4, as amended. For every byte input that starts at an even byte offset of its buffer
  and holds at least one complete frame, \<open>decodeAudioData\<close> ignores a trailing odd byte,
  produces \<open>floor(sampleCount / numChannels)\<close> frames (\<open>sampleCount\<close> being half the even
  length), and sets frame \<open>i\<close> of channel \<open>c\<close> to the signed sixteen-bit little-endian
  sample at interleaved index \<open>i * numChannels + c\<close> divided by 32768. The context has to
  support the channel count and the sample rate, and the frame count has to fit the
  \<open>unsigned long\<close> of \<open>createBuffer\<close>. The instance that follows is a five-byte input with
  one channel: two frames, the fifth byte ignored.
\<close>

theorem decodeAudioData_frames:
  assumes "1 \<le> numChannels" "numChannels \<le> maxChannels ctx"
    and "minSampleRate ctx \<le> rate" "rate \<le> maxSampleRate ctx"
    and "even (byteOffset data)" "bytes = elements data"
    and "frames = length bytes div 2 div numChannels" "1 \<le> frames" "frames < 2 ^ 32"
  shows "decodeAudioData (Some data) ctx rate numChannels =
     Inr \<lparr>numberOfChannels = numChannels, bufferSampleRate = rate,
          channels =
            map (\<lambda>c. map (\<lambda>i. Num (of_int (sint (le16 (bytes ! (2 * (i * numChannels + c)))
                                                      (bytes ! (2 * (i * numChannels + c) + 1))))
                                 / 32768))
                          [0 ..< frames])
              [0 ..< numChannels]\<rparr>"
proof -
  define d where "d = map (\<lambda>k. le16 (bytes ! (2 * k)) (bytes ! (2 * k + 1))) [0 ..< length bytes div 2]"
  have view: "Int16Array (elements data) (byteOffset data) (length (elements data) div 2) =
      Inr d"
    unfolding d_def assms(6) using assms(5) by (rule Int16Array_aligned)
  have len: "length d = length bytes div 2" by (simp add: d_def)
  have nonempty: "length (elements data) \<noteq> 0" using assms(6,7,8) by auto
  have pos: "\<not> (of_nat (length d) / of_nat numChannels :: rat) \<le> 0"
  proof -
    have "0 < length d" using assms(7,8) len by (cases "length d") auto
    then show ?thesis using assms(1) by (simp add: not_le)
  qed
  have u32: "ToUint32 (of_nat (length bytes div 2) / of_nat numChannels) =
      length bytes div 2 div numChannels"
    using assms(7,9) by (simp add: ToUint32_quotient)
  have buf: "createBuffer ctx numChannels (of_nat (length d) / of_nat numChannels) rate =
      Inr \<lparr>numberOfChannels = numChannels, bufferSampleRate = rate,
           channels = replicate numChannels (replicate (length d div numChannels) (Num 0))\<rparr>"
    using assms(1-4,7,8) by (simp add: createBuffer_def u32 len)
  have samples: "d ! (i * numChannels + c) =
      le16 (bytes ! (2 * (i * numChannels + c))) (bytes ! (2 * (i * numChannels + c) + 1))"
    if "i < frames" "c < numChannels" for i c
  proof -
    have "i * numChannels + c < length bytes div 2"
      using that assms(7) by (intro frame_index_in_range) simp_all
    then show ?thesis by (simp add: d_def)
  qed
  have "decodeAudioData (Some data) ctx rate numChannels =
      Inr (fill_buffer d numChannels (of_nat (length d) / of_nat numChannels)
        \<lparr>numberOfChannels = numChannels, bufferSampleRate = rate,
         channels = replicate numChannels (replicate (length d div numChannels) (Num 0))\<rparr>)"
    using assms(1) nonempty pos buf
    by (simp add: decodeAudioData_def Let_def view)
  also have "\<dots> = Inr \<lparr>numberOfChannels = numChannels, bufferSampleRate = rate,
      channels = map (\<lambda>c. map (\<lambda>i. Num (of_int (sint (d ! (i * numChannels + c))) / 32768))
                        [0 ..< frames]) [0 ..< numChannels]\<rparr>"
    unfolding fill_buffer_frames by (simp only: len assms(7))
  finally show ?thesis by (simp add: samples cong: map_cong)
qed

theorem decodeAudioData_frames_witness:
  "decodeAudioData (Some \<lparr>elements = [0, 128, 255, 127, 9], byteOffset = 0\<rparr>)
     \<lparr>maxChannels = 32, minSampleRate = 8000, maxSampleRate = 96000\<rparr> 24000 1 =
   Inr \<lparr>numberOfChannels = 1, bufferSampleRate = 24000,
        channels = [[Num (- 32768 / 32768), Num (32767 / 32768)]]\<rparr>"
proof -
  have frames: "[0 ..< 2 :: nat] = [0, 1]"
    by (simp add: eval_nat_numeral)
  show ?thesis
    using decodeAudioData_frames
      [of 1 "\<lparr>maxChannels = 32, minSampleRate = 8000, maxSampleRate = 96000\<rparr>" 24000
          "\<lparr>elements = [0, 128, 255, 127, 9], byteOffset = 0\<rparr>" "[0, 128, 255, 127, 9]" 2]
    by (simp add: le16_def frames)
qed

text \<open>
  C4, as stated, fails for an array that starts at an odd offset of its buffer: four bytes
  (two complete one-channel frames) at \<open>byteOffset\<close> 1 make the \<open>Int16Array\<close> constructor
  throw \<open>RangeError\<close>, and the promise is rejected.
\<close>

theorem decodeAudioData_odd_offset_fails:
  "decodeAudioData (Some \<lparr>elements = [1, 0, 2, 0], byteOffset = 1\<rparr>)
     \<lparr>maxChannels = 32, minSampleRate = 8000, maxSampleRate = 96000\<rparr> 24000 1 =
   Inl RangeError"
  by (rule decodeAudioData_unaligned) simp_all

text \<open>
  C9. The claim: for empty or null input, and for any input whose frame count
  \<open>floor(sampleCount / numChannels)\<close> is not positive, \<open>decodeAudioData\<close> returns a buffer
  of exactly one silent frame rather than failing. By \<open>decodeAudioData_silent_frame\<close> this
  holds for null and empty input and for one byte at an even offset. It fails for an input
  with at least one sample but fewer samples than channels
  (\<open>decodeAudioData_incomplete_frame\<close>): the quotient \<open>frameCount\<close> is a fraction between 0
  and 1, the test \<open>frameCount <= 0\<close> does not catch it, and \<open>createBuffer\<close> is asked for a
  buffer of length 0 and throws. The theorem evaluates the code on two bytes, at offset 0
  of their buffer, with two channels.
\<close>

theorem decodeAudioData_incomplete_frame_fails:
  "decodeAudioData (Some \<lparr>elements = [0, 0], byteOffset = 0\<rparr>)
     \<lparr>maxChannels = 32, minSampleRate = 8000, maxSampleRate = 96000\<rparr> 24000 2 =
   Inl NotSupportedError"
  by (rule decodeAudioData_incomplete_frame) simp_all

text \<open>
  C5. For every finite sample \<open>s\<close> of the resampled channel, \<open>fileToPcm16k\<close> stores the
  signed sixteen-bit integer obtained by clamping \<open>s\<close> to \<open>[-1, 1]\<close>, multiplying the
  clamped value by 32768 when it is negative and by 32767 otherwise, and dropping the
  fraction (towards zero); the product always fits sixteen bits, so nothing wraps around.
  The text that \<open>fileToPcm16k\<close> returns decodes to the little-endian bytes of these
  integers.
\<close>

theorem fileToPcm16k_quantizes:
  fixes s :: rat
  defines "c \<equiv> max (- 1) (min 1 s)"
  shows "sint (quantize (Num s)) = js_trunc (if c < 0 then c * 32768 else c * 32767) \<and>
         - 32768 \<le> sint (quantize (Num s)) \<and> sint (quantize (Num s)) \<le> 32767 \<and>
         (\<exists>text. fileToPcm16k floatData = Inr text \<and>
                 decode text = Inr (int16_bytes (map quantize floatData)))"
proof -
  have range: "- 1 \<le> c" "c \<le> 1" by (simp_all add: c_def)
  define k where "k = js_trunc (if c < 0 then c * 32768 else c * 32767)"
  have "js_max (Num (- 1)) (js_min (Num 1) (Num s)) = Num c"
    by (simp add: c_def)
  then have q: "quantize (Num s) = of_int k"
    by (simp add: quantize_def k_def)
  have bounds: "- 32768 \<le> k \<and> k \<le> 32767"
  proof (cases "c < 0")
    case True
    then show ?thesis
      using clamp_neg_bounds [OF range(1) True] by (simp add: k_def js_trunc_def)
  next
    case False
    then have "0 \<le> c" by simp
    from clamp_pos_bounds [OF this range(2)] False show ?thesis
      by (simp add: k_def js_trunc_def)
  qed
  then have "sint (quantize (Num s)) = k"
    unfolding q by (intro sint_in_range) simp_all
  moreover have "\<exists>text. fileToPcm16k floatData = Inr text \<and>
      decode text = Inr (int16_bytes (map quantize floatData))"
    by (simp add: fileToPcm16k_def encode_total decode_base64_encode)
  ultimately show ?thesis using bounds by (simp add: k_def)
qed

theorem fileToPcm16k_quantizes_witness:
  "sint (quantize (Num 1)) = 32767 \<and> sint (quantize (Num (- 1))) = - 32768 \<and>
   sint (quantize (Num (1 / 2))) = 16383 \<and> sint (quantize (Num (- 1 / 2))) = - 16384 \<and>
   sint (quantize (Num 3)) = 32767 \<and> sint (quantize (Num (- 3))) = - 32768"
  using fileToPcm16k_quantizes [of 1] fileToPcm16k_quantizes [of "- 1"]
    fileToPcm16k_quantizes [of "1 / 2"] fileToPcm16k_quantizes [of "- 1 / 2"]
    fileToPcm16k_quantizes [of 3] fileToPcm16k_quantizes [of "- 3"]
  by (simp add: js_trunc_def floor_rat_numeral ceiling_rat_minus_numeral)

text \<open>
  C6, as amended. For every decoded input file, \<open>fileToPcm16k\<close> renders one channel at
  16000 Hz of exactly \<open>ceil(p)\<close> frames, and the text it returns decodes to
  \<open>2 * ceil(p)\<close> PCM bytes, where \<open>p\<close> is the product, rounded to double precision, of
  16000 and \<open>audioBuffer.duration\<close>, itself the double nearest to the number of frames
  divided by the sample rate; the count has to be at least 1 and to fit the
  \<open>unsigned long\<close> of the offline context. Where the duration \<open>d\<close> and the product are
  exact, this is \<open>ceil(d * 16000)\<close>: the instance that follows is a two-second stereo
  input at 44100 Hz, which gives 32000 frames and 64000 bytes.
\<close>

theorem fileToPcm16k_frames:
  assumes "duration audioBuffer = Some d" "double_of (d * 16000) = Some p"
    and "0 < p" "\<lceil>p\<rceil> < 2 ^ 32"
    and "floatData = map (rendered 0) [0 ..< nat \<lceil>p\<rceil>]"
  shows "resampledBuffer audioBuffer rendered =
           Inr \<lparr>numberOfChannels = 1, bufferSampleRate = 16000, channels = [floatData]\<rparr> \<and>
         length floatData = nat \<lceil>p\<rceil> \<and>
         (\<exists>text. fileToPcm16k_decoded audioBuffer rendered = Inr text \<and>
                 decode text = Inr (int16_bytes (map quantize floatData)) \<and>
                 length (int16_bytes (map quantize floatData)) = 2 * nat \<lceil>p\<rceil>)"
proof -
  have rb: "resampledBuffer audioBuffer rendered =
      Inr \<lparr>numberOfChannels = 1, bufferSampleRate = 16000, channels = [floatData]\<rparr>"
    unfolding assms(5) using assms(1-4) by (rule resampledBuffer_frames)
  have len: "length floatData = nat \<lceil>p\<rceil>" by (simp add: assms(5))
  have "fileToPcm16k_decoded audioBuffer rendered = fileToPcm16k floatData"
    by (simp add: fileToPcm16k_decoded_def rb getChannelData_def)
  then have "\<exists>text. fileToPcm16k_decoded audioBuffer rendered = Inr text \<and>
      decode text = Inr (int16_bytes (map quantize floatData))"
    by (simp add: fileToPcm16k_def encode_total decode_base64_encode)
  with rb len show ?thesis by (simp add: length_int16_bytes)
qed

theorem fileToPcm16k_frames_witness:
  "resampledBuffer
     \<lparr>numberOfChannels = 2, bufferSampleRate = 44100,
      channels = [replicate 88200 (Num 0), replicate 88200 (Num 0)]\<rparr> silence =
     Inr \<lparr>numberOfChannels = 1, bufferSampleRate = 16000,
          channels = [replicate 32000 (Num 0)]\<rparr> \<and>
   nat \<lceil>(88200 / 44100 :: rat) * 16000\<rceil> = 32000 \<and>
   (\<exists>text. fileToPcm16k_decoded
        \<lparr>numberOfChannels = 2, bufferSampleRate = 44100,
         channels = [replicate 88200 (Num 0), replicate 88200 (Num 0)]\<rparr> silence = Inr text \<and>
      decode text = Inr (int16_bytes (map quantize (replicate 32000 (Num 0)))) \<and>
      length (int16_bytes (map quantize (replicate 32000 (Num 0)))) = 64000)"
proof -
  let ?b = "\<lparr>numberOfChannels = 2, bufferSampleRate = 44100,
      channels = [replicate 88200 (Num 0), replicate 88200 (Num 0)]\<rparr>"
  have d: "duration ?b = Some 2"
    by (simp add: duration_def buffer_length_def double_eval)
  have p: "double_of (2 * 16000) = Some 32000"
    by (simp add: double_eval)
  from fileToPcm16k_frames [of ?b 2 32000 "replicate 32000 (Num 0)" silence, OF d p]
  show ?thesis by (simp add: map_silence)
qed

text \<open>
  C6, as stated, fails where the double-precision arithmetic rounds up past an integer: a
  file of 2007 frames at 16000 Hz lasts \<open>2007 / 16000\<close> seconds, \<open>ceil(d * 16000)\<close> is
  2007, but \<open>(2007 / 16000) * 16000\<close> is \<open>2007.0000000000002\<close> in double precision and
  2008 frames are rendered.
\<close>

theorem fileToPcm16k_frames_counterexample:
  "resampledBuffer
     \<lparr>numberOfChannels = 1, bufferSampleRate = 16000,
      channels = [replicate 2007 (Num 0)]\<rparr> silence =
     Inr \<lparr>numberOfChannels = 1, bufferSampleRate = 16000,
          channels = [replicate 2008 (Num 0)]\<rparr> \<and>
   nat \<lceil>(2007 / 16000 :: rat) * 16000\<rceil> = 2007"
proof -
  let ?b = "\<lparr>numberOfChannels = 1, bufferSampleRate = 16000,
      channels = [replicate 2007 (Num 0)]\<rparr>"
  have d: "duration ?b = Some (4519362226066293 / 36028797018963968)"
    by (simp add: duration_def buffer_length_def double_of_2007_16000)
  have c: "\<lceil>(8826879347785729 / 4398046511104 :: rat)\<rceil> = 2008"
    by (simp add: ceiling_rat_numeral)
  from resampledBuffer_frames [of ?b _ _ silence, OF d double_of_2007_product]
  show ?thesis by (simp add: c map_silence)
qed

text \<open>
  C7. For every sequence of callback events (open, message, error, close, timer)
  \<open>generateSpeech\<close> calls \<open>resolve\<close> or \<open>reject\<close> at most once in all; exactly once as
  soon as an error, a close or the timer has occurred; and after the first outcome no
  later event adds or changes an outcome.
\<close>

theorem generateSpeech_settles_once:
  "length (settled (generateSpeech events)) \<le> 1 \<and>
   (list_ex deciding events \<longrightarrow> length (settled (generateSpeech events)) = 1) \<and>
   (settled (generateSpeech events) = [outcome] \<longrightarrow>
      settled (generateSpeech (events @ later)) = [outcome])"
proof (intro conjI impI)
  have inv: "pending_inv (generateSpeech events)" by (rule generateSpeech_inv)
  then show "length (settled (generateSpeech events)) \<le> 1"
    by (simp add: pending_inv_def split: if_splits)
  show "length (settled (generateSpeech events)) = 1" if "list_ex deciding events"
  proof -
    from that have "isResolved (generateSpeech events)"
      unfolding generateSpeech_def by (rule run_deciding)
    with inv show ?thesis by (simp add: pending_inv_def)
  qed
  show "settled (generateSpeech (events @ later)) = [outcome]"
    if "settled (generateSpeech events) = [outcome]"
  proof -
    from that inv have "isResolved (generateSpeech events)"
      by (auto simp add: pending_inv_def split: if_splits)
    then have "settled (foldl handle (generateSpeech events) later) = settled (generateSpeech events)"
      by (simp add: run_resolved)
    with that show ?thesis by (simp add: generateSpeech_def)
  qed
qed

theorem generateSpeech_settles_once_witness:
  "length (settled (generateSpeech
      [OnOpen,
       OnMessage \<lparr>parts = [\<lparr>inlineData = None, partText = Some (str ''no'')\<rparr>],
                  turnComplete = True\<rparr>,
       OnClose])) = 1 \<and>
   settled (generateSpeech
      ([OnOpen,
        OnMessage \<lparr>parts = [\<lparr>inlineData = None, partText = Some (str ''no'')\<rparr>],
                   turnComplete = True\<rparr>,
        OnClose] @ [Timeout, OnError None])) =
     [Rejected (str ''Vocal Replication Error: no'')]"
proof -
  let ?events = "[OnOpen,
       OnMessage \<lparr>parts = [\<lparr>inlineData = None, partText = Some (str ''no'')\<rparr>],
                  turnComplete = True\<rparr>,
       OnClose]"
  have decided: "list_ex deciding ?events" by simp
  have "str ''no'' \<noteq> []" by (simp add: str_def)
  then have first: "settled (generateSpeech ?events) = [Rejected (str ''Vocal Replication Error: no'')]"
    by (simp add: generateSpeech_def onmessage_def add_part_def truthy_def initial_def trim_no
        reject_with_def request_close_def onclose_def str_append Let_def)
  from generateSpeech_settles_once
    [of ?events "Rejected (str ''Vocal Replication Error: no'')" "[Timeout, OnError None]"]
    decided first
  show ?thesis by simp
qed

text \<open>
  C8. In an exchange that is still pending, a close and the firing of the timer each
  resolve the promise with \<open>combineBase64Chunks\<close> of the accumulated chunks when at least
  one audio chunk has been received, and reject it when none has. The instance that
  follows is the scenario of three chunks followed by a close, and a timer firing with
  nothing received.
\<close>

theorem close_or_timeout_outcome:
  assumes "s = generateSpeech events" "\<not> isResolved s" "e = OnClose \<or> e = Timeout"
  shows "(accumulatedAudioChunks s \<noteq> [] \<longrightarrow>
            (\<exists>audio. combineBase64Chunks (accumulatedAudioChunks s) = Inr audio \<and>
                     settled (handle s e) = [Resolved audio])) \<and>
         (accumulatedAudioChunks s = [] \<longrightarrow> (\<exists>msg. settled (handle s e) = [Rejected msg]))"
proof -
  have "pending_inv s" unfolding assms(1) by (rule generateSpeech_inv)
  with assms(2) have "settled s = []" by (simp add: pending_inv_def)
  with assms(2,3) show ?thesis
    by (auto simp add: onclose_def ontimeout_def resolve_combined_def reject_with_def
        request_close_def combineBase64Chunks_eq)
qed

theorem close_or_timeout_outcome_witness:
  "(\<exists>audio. combineBase64Chunks [str ''TWE='', str ''bg=='', str ''TWFu''] = Inr audio \<and>
      settled (handle (generateSpeech
        [OnMessage \<lparr>parts = [\<lparr>inlineData = Some (str ''TWE=''), partText = None\<rparr>,
                              \<lparr>inlineData = Some (str ''bg==''), partText = None\<rparr>],
                    turnComplete = False\<rparr>,
         OnMessage \<lparr>parts = [\<lparr>inlineData = Some (str ''TWFu''), partText = None\<rparr>],
                    turnComplete = False\<rparr>]) OnClose) = [Resolved audio]) \<and>
   (\<exists>msg. settled (handle (generateSpeech [OnOpen]) Timeout) = [Rejected msg])"
proof -
  let ?events = "[OnMessage \<lparr>parts = [\<lparr>inlineData = Some (str ''TWE=''), partText = None\<rparr>,
                              \<lparr>inlineData = Some (str ''bg==''), partText = None\<rparr>],
                    turnComplete = False\<rparr>,
         OnMessage \<lparr>parts = [\<lparr>inlineData = Some (str ''TWFu''), partText = None\<rparr>],
                    turnComplete = False\<rparr>]"
  have s: "generateSpeech ?events =
      \<lparr>accumulatedAudioChunks = [str ''TWE='', str ''bg=='', str ''TWFu''],
       accumulatedText = [], isResolved = False, hasReceivedAudio = True, settled = [],
       closeRequests = 0\<rparr>"
    by (simp add: generateSpeech_def onmessage_def add_part_def truthy_def initial_def str_def)
  have t: "generateSpeech [OnOpen] = initial"
    by (simp add: generateSpeech_def)
  from close_or_timeout_outcome [of "generateSpeech ?events" ?events OnClose]
    close_or_timeout_outcome [of "generateSpeech [OnOpen]" "[OnOpen]" Timeout]
  show ?thesis
    unfolding s t by (simp add: initial_def)
qed

text \<open>
  C10. When a message with \<open>turnComplete\<close> arrives in a pending exchange, and \<open>s'\<close> is
  the state after the parts of that message have been accumulated: with at least one audio
  chunk the promise is resolved with the combined audio; with no audio and text that is
  not blank after trimming it is rejected with the text; with neither, nothing is settled,
  the exchange stays pending, and a later close, error or timer settles it.
\<close>

theorem turnComplete_outcome:
  assumes "s = generateSpeech events" "\<not> isResolved s" "turnComplete m"
    and "s' = foldl add_part s (parts m)"
  shows "(accumulatedAudioChunks s' \<noteq> [] \<longrightarrow>
            (\<exists>audio. combineBase64Chunks (accumulatedAudioChunks s') = Inr audio \<and>
                     settled (onmessage s m) = [Resolved audio])) \<and>
         (accumulatedAudioChunks s' = [] \<and> trim (accumulatedText s') \<noteq> [] \<longrightarrow>
            settled (onmessage s m) =
              [Rejected (str ''Vocal Replication Error: '' @ accumulatedText s')]) \<and>
         (accumulatedAudioChunks s' = [] \<and> trim (accumulatedText s') = [] \<longrightarrow>
            settled (onmessage s m) = [] \<and> \<not> isResolved (onmessage s m) \<and>
            length (settled (handle (onmessage s m) OnClose)) = 1 \<and>
            length (settled (handle (onmessage s m) (OnError err))) = 1 \<and>
            length (settled (handle (onmessage s m) Timeout)) = 1)"
proof -
  have inv: "pending_inv s" unfolding assms(1) by (rule generateSpeech_inv)
  then have inv': "pending_inv s'" unfolding assms(4) by (rule add_parts_inv)
  have pend: "\<not> isResolved s'" "settled s' = []"
    using inv assms(2) by (simp_all add: assms(4) add_parts_unchanged pending_inv_def)
  have audio: "hasReceivedAudio s' = (accumulatedAudioChunks s' \<noteq> [])"
    using inv' by (simp add: pending_inv_def)
  have om: "onmessage s m =
      (if hasReceivedAudio s' then
         (case combineBase64Chunks (accumulatedAudioChunks s') of
            Inl e \<Rightarrow> s'\<lparr>isResolved := True\<rparr>
          | Inr audio \<Rightarrow>
              request_close (s'\<lparr>isResolved := True, settled := settled s' @ [Resolved audio]\<rparr>))
       else if 0 < length (trim (accumulatedText s')) then
         request_close
           (reject_with (str ''Vocal Replication Error: '' @ accumulatedText s')
              (s'\<lparr>isResolved := True\<rparr>))
       else s')"
    using assms(3) pend(1) by (simp add: onmessage_def Let_def assms(4) [symmetric])
  have later: "length (settled (handle s' e)) = 1" if "deciding e" for e
  proof -
    have "pending_inv (handle s' e)" using inv' by (rule handle_inv)
    moreover have "isResolved (handle s' e)" using that by (rule handle_deciding)
    ultimately show ?thesis by (simp add: pending_inv_def)
  qed
  show ?thesis
    unfolding om using pend audio later [of OnClose] later [of "OnError err"] later [of Timeout]
    by (simp add: combineBase64Chunks_eq request_close_def reject_with_def)
qed

theorem turnComplete_outcome_witness:
  "(\<exists>audio. combineBase64Chunks [str ''TWE=''] = Inr audio \<and>
      settled (onmessage (generateSpeech [OnOpen])
        \<lparr>parts = [\<lparr>inlineData = Some (str ''TWE=''), partText = Some (str ''no'')\<rparr>],
         turnComplete = True\<rparr>) = [Resolved audio]) \<and>
   settled (onmessage (generateSpeech [OnOpen])
        \<lparr>parts = [\<lparr>inlineData = Some [], partText = Some (str ''no'')\<rparr>],
         turnComplete = True\<rparr>) = [Rejected (str ''Vocal Replication Error: no'')] \<and>
   settled (onmessage (generateSpeech [OnOpen])
        \<lparr>parts = [\<lparr>inlineData = None, partText = Some (str '' '')\<rparr>],
         turnComplete = True\<rparr>) = [] \<and>
   length (settled (handle (onmessage (generateSpeech [OnOpen])
        \<lparr>parts = [\<lparr>inlineData = None, partText = Some (str '' '')\<rparr>],
         turnComplete = True\<rparr>) Timeout)) = 1"
proof -
  let ?m1 = "\<lparr>parts = [\<lparr>inlineData = Some (str ''TWE=''), partText = Some (str ''no'')\<rparr>],
         turnComplete = True\<rparr>"
  let ?m2 = "\<lparr>parts = [\<lparr>inlineData = Some [], partText = Some (str ''no'')\<rparr>],
         turnComplete = True\<rparr>"
  let ?m3 = "\<lparr>parts = [\<lparr>inlineData = None, partText = Some (str '' '')\<rparr>],
         turnComplete = True\<rparr>"
  have t: "generateSpeech [OnOpen] = initial"
    by (simp add: generateSpeech_def)
  have ne: "str ''TWE='' \<noteq> []" "str ''no'' \<noteq> []" "str '' '' \<noteq> []"
    by (simp_all add: str_def)
  have s1: "foldl add_part initial (parts ?m1) =
      initial\<lparr>accumulatedAudioChunks := [str ''TWE=''], hasReceivedAudio := True,
              accumulatedText := str ''no''\<rparr>"
    using ne by (simp add: add_part_def truthy_def initial_def)
  have s2: "foldl add_part initial (parts ?m2) = initial\<lparr>accumulatedText := str ''no''\<rparr>"
    using ne by (simp add: add_part_def truthy_def initial_def)
  have s3: "foldl add_part initial (parts ?m3) = initial\<lparr>accumulatedText := str '' ''\<rparr>"
    using ne by (simp add: add_part_def truthy_def initial_def)
  from turnComplete_outcome [of initial "[OnOpen]" ?m1, OF t [symmetric] _ _ s1 [symmetric]]
    turnComplete_outcome [of initial "[OnOpen]" ?m2, OF t [symmetric] _ _ s2 [symmetric]]
    turnComplete_outcome [of initial "[OnOpen]" ?m3 _ None, OF t [symmetric] _ _ s3 [symmetric]]
  show ?thesis
    unfolding t using ne by (simp add: initial_def trim_no trim_blank str_append)
qed

end
